theory Spec2Isabelle
  imports Main "HOL-Library.AList" "HOL-Library.Sublist"
begin

section \<open>JavaScript strings and JSON values\<close>

text \<open>
  A JavaScript string is a sequence of UTF-16 code units. A code unit is modelled as a
  natural number (0 .. 65535 in the program; no definition below depends on the bound).
  \<open>js\<close> turns an ASCII literal into such a string.
\<close>

type_synonym jschar = nat
type_synonym jsstring = "nat list"

definition js :: "string \<Rightarrow> jsstring" where
  "js s = map of_char s"

text \<open>
  A value produced by \<open>JSON.parse\<close>. An object is an association list in insertion
  order. Numbers are only ever tested for truthiness by the code modelled here, never
  computed with; the payload is an integer.
\<close>

datatype json =
    JNull
  | JBool bool
  | JNum int
  | JStr jsstring
  | JArr "json list"
  | JObj "(jsstring \<times> json) list"

type_synonym obj = "(jsstring \<times> json) list"

text \<open>\<open>obj[k]\<close>: \<open>None\<close> stands for \<open>undefined\<close> (key absent).\<close>

definition getProp :: "obj \<Rightarrow> jsstring \<Rightarrow> json option" where
  "getProp ob k = map_of ob k"

text \<open>\<open>k in obj\<close> for a plain object and a key that is not on \<open>Object.prototype\<close>.\<close>

definition hasKey :: "jsstring \<Rightarrow> obj \<Rightarrow> bool" where
  "hasKey k ob = (k \<in> fst ` set ob)"

text \<open>\<open>obj[k] = v\<close>: overwrite in place, or append a new key at the end.\<close>

definition setProp :: "jsstring \<Rightarrow> json \<Rightarrow> obj \<Rightarrow> obj" where
  "setProp k v ob = AList.update k v ob"

text \<open>JavaScript truthiness of a possibly undefined JSON value (\<open>!v\<close> is its negation).\<close>

fun truthy :: "json option \<Rightarrow> bool" where
  "truthy None = False"
| "truthy (Some JNull) = False"
| "truthy (Some (JBool b)) = b"
| "truthy (Some (JNum n)) = (n \<noteq> 0)"
| "truthy (Some (JStr s)) = (s \<noteq> [])"
| "truthy (Some (JArr _)) = True"
| "truthy (Some (JObj _)) = True"

section \<open>Character classes of the regular expressions\<close>

text \<open>\<open>\<bslash>d\<close> without the unicode flag: \<open>[0-9]\<close>.\<close>

definition isDigit :: "jschar \<Rightarrow> bool" where
  "isDigit c = (48 \<le> c \<and> c \<le> 57)"

definition isAsciiUpper :: "jschar \<Rightarrow> bool" where
  "isAsciiUpper c = (65 \<le> c \<and> c \<le> 90)"

definition isAsciiLower :: "jschar \<Rightarrow> bool" where
  "isAsciiLower c = (97 \<le> c \<and> c \<le> 122)"

text \<open>\<open>\<bslash>w\<close> without the unicode flag: \<open>[A-Za-z0-9_]\<close>.\<close>

definition isWordChar :: "jschar \<Rightarrow> bool" where
  "isWordChar c = (isAsciiUpper c \<or> isAsciiLower c \<or> isDigit c \<or> c = 95)"

text \<open>
  \<open>\<bslash>s\<close>, which is also what \<open>trim\<close> removes: WhiteSpace and LineTerminator of
  ECMAScript (TAB, LF, VT, FF, CR, SP, NBSP, U+1680, U+2000..U+200A, U+2028, U+2029,
  U+202F, U+205F, U+3000, U+FEFF).
\<close>

definition isSpace :: "jschar \<Rightarrow> bool" where
  "isSpace c = (c \<in> {9, 10, 11, 12, 13, 32, 160, 5760, 8232, 8233, 8239, 8287, 12288, 65279}
                \<or> (8192 \<le> c \<and> c \<le> 8202))"

text \<open>
  The range of the name filter that starts at A with grave and ends at y with diaeresis:
  U+00C0 .. U+00FF (it contains the multiplication sign U+00D7 and the division sign
  U+00F7).
\<close>

definition inLatin1Range :: "jschar \<Rightarrow> bool" where
  "inLatin1Range c = (192 \<le> c \<and> c \<le> 255)"

text \<open>
  Canonicalisation of a code unit under the \<open>i\<close> flag (no \<open>u\<close> flag), as far as a
  comparison with an ASCII pattern character can see it: ASCII letters fold to upper
  case, and no code unit from 128 on folds to an ASCII one.
\<close>

definition foldCase :: "jschar \<Rightarrow> jschar" where
  "foldCase c = (if isAsciiLower c then c - 32 else c)"

text \<open>The pattern \<open>p\<close> matches, ignoring ASCII case, at the start of \<open>s\<close>.\<close>

definition prefixCI :: "jsstring \<Rightarrow> jsstring \<Rightarrow> bool" where
  "prefixCI p s = (length p \<le> length s \<and> map foldCase (take (length p) s) = map foldCase p)"

section \<open>String helpers\<close>

text \<open>\<open>s.replace(/\<bslash>s+/g, " ")\<close>: every maximal run of white space becomes one space.\<close>

function collapseWs :: "jsstring \<Rightarrow> jsstring" where
  "collapseWs [] = []"
| "collapseWs (c # cs) =
     (if isSpace c then 32 # collapseWs (dropWhile isSpace cs) else c # collapseWs cs)"
  by pat_completeness auto
termination
  by (relation "measure length") (auto simp: less_Suc_eq_le length_dropWhile_le)

text \<open>\<open>s.trim()\<close>.\<close>

definition trim :: "jsstring \<Rightarrow> jsstring" where
  "trim s = rev (dropWhile isSpace (rev (dropWhile isSpace s)))"

text \<open>
  \<open>s.indexOf(p, from)\<close> for \<open>0 \<le> from\<close>: the least position \<open>k \<ge> from\<close> at which
  \<open>p\<close> occurs, \<open>None\<close> for \<open>-1\<close>. JavaScript clamps \<open>from\<close> to the length of
  \<open>s\<close>, which matters for an empty \<open>p\<close> only; the code searches for non-empty
  strings, and a negative \<open>from\<close> (a failed earlier search) is passed as 0.
\<close>

definition occursAt :: "jsstring \<Rightarrow> jsstring \<Rightarrow> nat \<Rightarrow> bool" where
  "occursAt s p k = (k + length p \<le> length s \<and> take (length p) (drop k s) = p)"

definition indexOf :: "jsstring \<Rightarrow> jsstring \<Rightarrow> nat \<Rightarrow> nat option" where
  "indexOf s p from = List.find (occursAt s p) [from ..< Suc (length s)]"

text \<open>\<open>s.slice(i, j)\<close> for \<open>0 \<le> i\<close> and \<open>0 \<le> j\<close>.\<close>

definition slice :: "jsstring \<Rightarrow> nat \<Rightarrow> nat \<Rightarrow> jsstring" where
  "slice s i j = take (j - i) (drop i s)"

section \<open>Name and ticket-number cleanup\<close>

text \<open>The alternatives of \<open>(MR|MRS|MS|MISS|DR|PROF)\<close>, in the order the matcher tries them.\<close>

definition honorifics :: "jsstring list" where
  "honorifics = [js ''MR'', js ''MRS'', js ''MS'', js ''MISS'', js ''DR'', js ''PROF'']"

text \<open>
  One alternative followed by \<open>\<bslash>b\<close> and the greedy \<open>\<bslash>.?\<close>, at the start of \<open>s\<close>:
  the length of the match. The alternative ends in a letter, so the boundary after it
  holds exactly when the next code unit is absent or not a word character.
\<close>

definition matchAlt :: "jsstring \<Rightarrow> jsstring \<Rightarrow> nat option" where
  "matchAlt h s =
     (if prefixCI h s then
        (case drop (length h) s of
           [] \<Rightarrow> Some (length h)
         | d # _ \<Rightarrow> if isWordChar d then None
                   else if d = 46 then Some (Suc (length h)) else Some (length h))
      else None)"

text \<open>The alternation: the first alternative, in order, that leads to a match.\<close>

fun matchAlts :: "jsstring list \<Rightarrow> jsstring \<Rightarrow> nat option" where
  "matchAlts [] s = None"
| "matchAlts (h # hs) s = (case matchAlt h s of Some n \<Rightarrow> Some n | None \<Rightarrow> matchAlts hs s)"

text \<open>
  The whole pattern \<open>\<bslash>b(MR|MRS|MS|MISS|DR|PROF)\<bslash>b\<bslash>.?\<close> at a position whose
  preceding code unit is a word character or not (\<open>prevWord\<close>; false at the start of
  the input). Every alternative starts with a letter, so the leading \<open>\<bslash>b\<close> holds
  exactly when the preceding code unit is not a word character.
\<close>

definition matchHonorific :: "bool \<Rightarrow> jsstring \<Rightarrow> nat option" where
  "matchHonorific prevWord s = (if prevWord then None else matchAlts honorifics s)"

text \<open>
  \<open>s.replace(/\<bslash>b(MR|MRS|MS|MISS|DR|PROF)\<bslash>b\<bslash>.?/gi, "")\<close>: a left-to-right scan that
  deletes every match and resumes right after it.
\<close>

function stripHonorifics :: "bool \<Rightarrow> jsstring \<Rightarrow> jsstring" where
  "stripHonorifics prevWord [] = []"
| "stripHonorifics prevWord (c # cs) =
     (case matchHonorific prevWord (c # cs) of
        Some n \<Rightarrow> stripHonorifics (isWordChar ((c # cs) ! (n - 1))) (drop n (c # cs))
      | None \<Rightarrow> c # stripHonorifics (isWordChar c) cs)"
  by pat_completeness auto
termination
proof (relation "measure (\<lambda>(p, s). length s)")
  have alt: "0 < n" if "matchAlt h s = Some n" "h \<noteq> []" for h s n
    using that by (auto simp: matchAlt_def split: if_splits list.splits)
  have alts: "0 < n" if "matchAlts hs s = Some n" "[] \<notin> set hs" for hs s n
    using that by (induction hs) (auto split: option.splits dest: alt)
  have "[] \<notin> set honorifics"
    by (simp add: honorifics_def js_def)
  then have pos: "0 < n" if "matchHonorific p s = Some n" for p s n
    using that alts by (auto simp: matchHonorific_def split: if_splits)
  fix prevWord :: bool and c :: jschar and cs :: jsstring and n :: nat
  assume "matchHonorific prevWord (c # cs) = Some n"
  then have "0 < n" by (rule pos)
  then show "((isWordChar ((c # cs) ! (n - 1)), drop n (c # cs)), prevWord, c # cs)
             \<in> measure (\<lambda>(p, s). length s)"
    by (cases n) auto
qed auto

text \<open>The negated class \<open>[^A-Za-z\<dots>\<bslash>s'-]\<close> of the name filter keeps exactly these.\<close>

definition keepName :: "jschar \<Rightarrow> bool" where
  "keepName c = (isAsciiUpper c \<or> isAsciiLower c \<or> inLatin1Range c \<or> isSpace c
                 \<or> c = 39 \<or> c = 45)"

text \<open>
  \<open>String.prototype.toUpperCase\<close> on the code units that can reach it in
  \<open>cleanNameAllCaps\<close> (ASCII letters, U+00C0 .. U+00FF, space, apostrophe, hyphen):
  sharp s (U+00DF) becomes \<open>SS\<close>, y with diaeresis (U+00FF) becomes U+0178, the
  division sign stays, the other lower-case letters move down by 32. Code units outside
  that alphabet are never passed to it there and are left as they are.
\<close>

definition upperUnit :: "jschar \<Rightarrow> jsstring" where
  "upperUnit c =
     (if isAsciiLower c then [c - 32]
      else if c = 223 then [83, 83]
      else if c = 255 then [376]
      else if 224 \<le> c \<and> c \<le> 254 \<and> c \<noteq> 247 then [c - 32]
      else [c])"

definition toUpperCaseName :: "jsstring \<Rightarrow> jsstring" where
  "toUpperCaseName s = concat (map upperUnit s)"

definition cleanNameAllCaps :: "json option \<Rightarrow> json" where
  "cleanNameAllCaps name =
     (case name of
        Some (JStr s) \<Rightarrow>
          if s = [] then JNull
          else
            let stripped =
                  trim (collapseWs (map (\<lambda>c. if keepName c then c else 32)
                                        (stripHonorifics False s)))
            in if stripped = [] then JNull else JStr (toUpperCaseName stripped)
      | _ \<Rightarrow> JNull)"

definition cleanTicketNumber :: "json option \<Rightarrow> json" where
  "cleanTicketNumber t =
     (case t of
        Some (JStr s) \<Rightarrow>
          if s = [] then JNull
          else
            let digits =
                  trim (collapseWs (map (\<lambda>c. if isDigit c \<or> isSpace c then c else 32) s))
            in if digits = [] then JNull else JStr digits
      | _ \<Rightarrow> JNull)"

section \<open>Errors\<close>

text \<open>
  Every \<open>throw\<close> of the server is a value of this type. The source throws plain
  \<open>Error\<close> objects; the constructors name the throwing site and keep what its message
  is built from.
\<close>

datatype error =
    UpstreamError jsstring        \<comment> \<open>the provider call failed or reported an error\<close>
  | NoObjectFound jsstring        \<comment> \<open>Invalid JSON from model (no object found)\<close>
  | ParseFailed jsstring          \<comment> \<open>Invalid JSON from model (parse failed)\<close>
  | InvalidType json              \<comment> \<open>Model output missing/invalid "type"\<close>
  | FlightMissingKey jsstring     \<comment> \<open>Flight output missing key\<close>
  | HotelMissingKey jsstring      \<comment> \<open>Hotel output missing key\<close>
  | TypeError                     \<comment> \<open>a method called on a value that does not have it\<close>
  | OcrError jsstring             \<comment> \<open>reading or recognising the uploaded image failed\<close>
  | RecorderError jsstring        \<comment> \<open>\<open>insertRun.run\<close> threw\<close>

section \<open>Flight post-processing\<close>

text \<open>
  \<open>(v || "").toLowerCase()\<close>. \<open>String.prototype.toLowerCase\<close> is a parameter
  (\<open>lower\<close>) of everything that uses it. A truthy value that is not a string has no
  such method, and the call throws.
\<close>

definition lowerOrEmpty :: "(jsstring \<Rightarrow> jsstring) \<Rightarrow> json option \<Rightarrow> error + jsstring" where
  "lowerOrEmpty lower v =
     (if truthy v then (case v of Some (JStr s) \<Rightarrow> Inr (lower s) | _ \<Rightarrow> Inl TypeError)
      else Inr (lower []))"

text \<open>CHECK 1 at an origin occurrence \<open>cursor\<close>: the destination restarts within 400.\<close>

definition isRepetition :: "jsstring \<Rightarrow> jsstring \<Rightarrow> nat \<Rightarrow> bool" where
  "isRepetition t b cursor =
     (case indexOf t b cursor of None \<Rightarrow> False | Some nextB \<Rightarrow> nextB - cursor < 400)"

text \<open>
  CHECK 2: a digit in \<open>t.slice(Math.max(0, cursor - 50), cursor + 100)\<close>
  (subtraction on \<open>nat\<close> stops at 0, which is the \<open>Math.max\<close>).
\<close>

definition hasDigit :: "jsstring \<Rightarrow> nat \<Rightarrow> bool" where
  "hasDigit t cursor = list_ex isDigit (slice t (cursor - 50) (cursor + 100))"

text \<open>
  The \<open>while\<close> loop over the occurrences of the origin from \<open>cursor\<close> on. \<open>Some c\<close>:
  the loop left through its \<open>return\<close> at the occurrence \<open>c\<close>; \<open>None\<close>: the search
  ran out.
\<close>

function scanReturnLeg :: "jsstring \<Rightarrow> jsstring \<Rightarrow> jsstring \<Rightarrow> nat \<Rightarrow> nat option" where
  "scanReturnLeg t a b cursor =
     (case indexOf t a cursor of
        None \<Rightarrow> None
      | Some c \<Rightarrow>
          if \<not> isRepetition t b c \<and> hasDigit t c then Some c
          else scanReturnLeg t a b (Suc c))"
  by pat_completeness auto
termination
proof (relation "measure (\<lambda>(t, a, b, cursor). Suc (length t) - cursor)")
  fix t a b :: jsstring and cursor c :: nat
  assume "indexOf t a cursor = Some c"
  then have "c \<in> set [cursor ..< Suc (length t)]"
    unfolding indexOf_def find_Some_iff by (metis nth_mem)
  then show "((t, a, b, Suc c), t, a, b, cursor)
             \<in> measure (\<lambda>(t, a, b, cursor). Suc (length t) - cursor)"
    by auto
qed auto

text \<open>
  The rest of \<open>postProcessFlight\<close> once \<open>t\<close>, \<open>a\<close> and \<open>b\<close> are computed and the
  trip type is defaulted: the early return on an empty city, the forward leg, the scan,
  and the final \<open>out.returnDate = null\<close>.
\<close>

definition classifyTrip :: "jsstring \<Rightarrow> jsstring \<Rightarrow> jsstring \<Rightarrow> obj \<Rightarrow> obj" where
  "classifyTrip t a b out =
     (if a = [] \<or> b = [] then out
      else
        let idxA = indexOf t a 0;
            idxB = indexOf t b (case idxA of None \<Rightarrow> 0 | Some i \<Rightarrow> i)
        in if idxA \<noteq> None \<and> idxB \<noteq> None \<and> scanReturnLeg t a b (the idxB) \<noteq> None
           then setProp (js ''tripType'') (JStr (js ''round_trip'')) out
           else setProp (js ''returnDate'') JNull out)"

definition postProcessFlight ::
  "(jsstring \<Rightarrow> jsstring) \<Rightarrow> obj \<Rightarrow> jsstring \<Rightarrow> error + obj" where
  "postProcessFlight lower flightObj originalText =
     (let out = flightObj;
          out = setProp (js ''passengerName'')
                  (cleanNameAllCaps (getProp out (js ''passengerName''))) out;
          out = setProp (js ''ticketNumber'')
                  (cleanTicketNumber (getProp out (js ''ticketNumber''))) out;
          t = lower originalText
      in case lowerOrEmpty lower (getProp out (js ''overallFrom'')) of
           Inl e \<Rightarrow> Inl e
         | Inr a \<Rightarrow>
            (case lowerOrEmpty lower (getProp out (js ''overallTo'')) of
               Inl e \<Rightarrow> Inl e
             | Inr b \<Rightarrow> Inr (classifyTrip t a b
                                (setProp (js ''tripType'') (JStr (js ''one_way'')) out))))"

section \<open>Decoding the model's response\<close>

text \<open>The opening fence with its language tag, as the pattern of the first replacement.\<close>

definition fenceJson :: jsstring where
  "fenceJson = [96, 96, 96] @ js ''json''"

text \<open>The first replacement of \<open>stripCodeFences\<close>: the tagged fence, ignoring case, and
  the white space after it, everywhere.\<close>

function removeJsonFences :: "jsstring \<Rightarrow> jsstring" where
  "removeJsonFences [] = []"
| "removeJsonFences (c # cs) =
     (if prefixCI fenceJson (c # cs)
      then removeJsonFences (dropWhile isSpace (drop (length fenceJson) (c # cs)))
      else c # removeJsonFences cs)"
  by pat_completeness auto
termination
proof (relation "measure length")
  fix c :: jschar and cs :: jsstring
  have "length (dropWhile isSpace (drop (length fenceJson) (c # cs)))
        \<le> length (drop (length fenceJson) (c # cs))"
    by (rule length_dropWhile_le)
  also have "\<dots> < length (c # cs)"
    by (simp add: fenceJson_def js_def)
  finally show "(dropWhile isSpace (drop (length fenceJson) (c # cs)), c # cs) \<in> measure length"
    by simp
qed auto

text \<open>The second replacement: every remaining run of three backticks.\<close>

fun removeFences :: "jsstring \<Rightarrow> jsstring" where
  "removeFences (x # y # z # cs) =
     (if x = 96 \<and> y = 96 \<and> z = 96 then removeFences cs
      else x # removeFences (y # z # cs))"
| "removeFences cs = cs"

definition stripCodeFences :: "jsstring \<Rightarrow> jsstring" where
  "stripCodeFences s = (if s = [] then [] else trim (removeFences (removeJsonFences s)))"

text \<open>
  The \<open>for\<close> loop of \<open>extractFirstJSONObject\<close> from index \<open>i\<close> with the depth so far:
  the index at which the depth is zero after the update.
\<close>

function scanBraces :: "jsstring \<Rightarrow> int \<Rightarrow> nat \<Rightarrow> nat option" where
  "scanBraces s depth i =
     (if i < length s then
        let ch = s ! i;
            depth' = (if ch = 123 then depth + 1 else if ch = 125 then depth - 1 else depth)
        in if depth' = 0 then Some i else scanBraces s depth' (Suc i)
      else None)"
  by pat_completeness auto
termination
  by (relation "measure (\<lambda>(s, depth, i). length s - i)") auto

definition extractFirstJSONObject :: "jsstring \<Rightarrow> jsstring option" where
  "extractFirstJSONObject raw =
     (let s = stripCodeFences raw in
      case indexOf s [123] 0 of
        None \<Rightarrow> None
      | Some start \<Rightarrow>
          (case scanBraces s 0 start of
             None \<Rightarrow> None
           | Some i \<Rightarrow> Some (slice s start (i + 1))))"

text \<open>
  The decoding steps at the end of \<open>callLLM\<close>. \<open>JSON.parse\<close> is a parameter:
  \<open>None\<close> when it throws.
\<close>

definition decodeResponse :: "(jsstring \<Rightarrow> json option) \<Rightarrow> jsstring \<Rightarrow> error + json" where
  "decodeResponse parse raw =
     (case parse (stripCodeFences raw) of
        Some v \<Rightarrow> Inr v
      | None \<Rightarrow>
          (case extractFirstJSONObject raw of
             None \<Rightarrow> Inl (NoObjectFound raw)
           | Some jsonStr \<Rightarrow>
               if jsonStr = [] then Inl (NoObjectFound raw)
               else (case parse jsonStr of
                       Some v \<Rightarrow> Inr v
                     | None \<Rightarrow> Inl (ParseFailed jsonStr))))"

text \<open>
  \<open>callLLM\<close>. The parameter \<open>provider\<close> stands for normalising the text, building the
  prompt, the HTTP exchange and reading \<open>choices[0].message.content\<close>: from the source
  text to the raw content, or the error thrown on the way. A text that is not a string
  has no \<open>replace\<close> method, and \<open>normalizeText\<close> throws before anything is sent.
\<close>

definition callLLM ::
  "(jsstring \<Rightarrow> json option) \<Rightarrow> (jsstring \<Rightarrow> error + jsstring) \<Rightarrow> json \<Rightarrow> error + json" where
  "callLLM parse provider text =
     (case text of
        JStr s \<Rightarrow> (case provider s of Inl e \<Rightarrow> Inl e | Inr raw \<Rightarrow> decodeResponse parse raw)
      | _ \<Rightarrow> Inl TypeError)"

section \<open>Schema completion and validation\<close>

definition flightKeys :: "jsstring list" where
  "flightKeys =
     [js ''passengerName'', js ''bookingReference'', js ''ticketNumber'', js ''tripType'',
      js ''overallFrom'', js ''overallTo'', js ''departureDate'', js ''returnDate'',
      js ''currency'', js ''totalPrice'']"

definition hotelKeys :: "jsstring list" where
  "hotelKeys =
     [js ''guestName'', js ''hotelName'', js ''receiptNumber'', js ''hotelCity'',
      js ''checkInDate'', js ''checkOutDate'', js ''currency'', js ''totalPrice'']"

text \<open>\<open>for (const k of keys) if (!(k in obj)) obj[k] = null\<close>.\<close>

definition fillKeys :: "jsstring list \<Rightarrow> obj \<Rightarrow> obj" where
  "fillKeys keys ob = fold (\<lambda>k ob. if hasKey k ob then ob else setProp k JNull ob) keys ob"

text \<open>\<open>obj?.type\<close>: only an object can carry the property.\<close>

fun typeTag :: "json \<Rightarrow> json option" where
  "typeTag (JObj ob) = getProp ob (js ''type'')"
| "typeTag _ = None"

fun ensureRequiredKeys :: "json \<Rightarrow> json" where
  "ensureRequiredKeys (JObj ob) =
     (if getProp ob (js ''type'') = Some (JStr (js ''flight'')) then JObj (fillKeys flightKeys ob)
      else if getProp ob (js ''type'') = Some (JStr (js ''hotel'')) then JObj (fillKeys hotelKeys ob)
      else JObj ob)"
| "ensureRequiredKeys v = v"

text \<open>The loop over the required keys: the first one that is missing throws.\<close>

definition requireKeys :: "(jsstring \<Rightarrow> error) \<Rightarrow> jsstring list \<Rightarrow> json \<Rightarrow> error + unit" where
  "requireKeys err keys v =
     (case List.find (\<lambda>k. \<not> hasKey k (case v of JObj ob \<Rightarrow> ob | _ \<Rightarrow> [])) keys of
        Some k \<Rightarrow> Inl (err k)
      | None \<Rightarrow> Inr ())"

definition assertValidOutput :: "json \<Rightarrow> error + unit" where
  "assertValidOutput v =
     (let t = typeTag v in
      if t \<noteq> Some (JStr (js ''flight'')) \<and> t \<noteq> Some (JStr (js ''hotel''))
      then Inl (InvalidType v)
      else
        (case (if t = Some (JStr (js ''flight''))
               then requireKeys FlightMissingKey flightKeys v else Inr ()) of
           Inl e \<Rightarrow> Inl e
         | Inr _ \<Rightarrow>
             if t = Some (JStr (js ''hotel''))
             then requireKeys HotelMissingKey hotelKeys v else Inr ()))"

section \<open>The evaluation recorder\<close>

text \<open>
  The row that a handler passes to \<open>logEvalRun\<close>. The latency and the time stamp come
  from the clock, provider and model from the process configuration; they play no part in
  what follows and are left out. \<open>json_output\<close> holds the value whose serialisation is
  stored, \<open>parse_error\<close> the error whose message is stored.
\<close>

record evalRow =
  source_file :: json
  input_type :: jsstring
  input_chars :: nat
  ocr_used :: bool
  success :: bool
  docType_pred :: json
  json_output :: "json option"
  parse_error :: "error option"

text \<open>
  \<open>logEvalRun\<close> runs the prepared \<open>INSERT\<close> statement. The statement is a parameter:
  from the row and the store to the store with the row in it, or the error it throws
  (then the store is unchanged).
\<close>

definition logEvalRun :: "(evalRow \<Rightarrow> 'db \<Rightarrow> error + 'db) \<Rightarrow> evalRow \<Rightarrow> 'db \<Rightarrow> error + 'db" where
  "logEvalRun insertRun row db = insertRun row db"

text \<open>A store that is the list of its rows, with an \<open>INSERT\<close> that never fails.\<close>

definition appendRow :: "evalRow \<Rightarrow> evalRow list \<Rightarrow> error + evalRow list" where
  "appendRow row db = Inr (db @ [row])"

text \<open>
  A store with the same rows whose \<open>INSERT\<close> refuses a row that carries a serialised
  output (as SQLite does for a string beyond its length limit) and takes every other row.
\<close>

definition strictInsert :: "evalRow \<Rightarrow> evalRow list \<Rightarrow> error + evalRow list" where
  "strictInsert row db =
     (case json_output row of
        Some _ \<Rightarrow> Inl (RecorderError (js ''string or blob too big''))
      | None \<Rightarrow> Inr (db @ [row]))"

section \<open>The extraction endpoints\<close>

text \<open>What the handlers read from the environment, besides the request.\<close>

record 'db env =
  toLowerCase :: "jsstring \<Rightarrow> jsstring"
  jsonParse :: "jsstring \<Rightarrow> json option"
  provider :: "jsstring \<Rightarrow> error + jsstring"
  extractTextFromImage :: "jsstring \<Rightarrow> error + jsstring"
  insertRun :: "evalRow \<Rightarrow> 'db \<Rightarrow> error + 'db"

text \<open>
  The statements of a handler's \<open>try\<close> block from \<open>callLLM\<close> to the second
  \<open>assertValidOutput\<close>; \<open>text\<close> is the input or OCR text.
\<close>

definition postProcessData :: "(jsstring \<Rightarrow> jsstring) \<Rightarrow> json \<Rightarrow> json \<Rightarrow> error + json" where
  "postProcessData lower data text =
     (if typeTag data = Some (JStr (js ''flight'')) then
        (case (data, text) of
           (JObj ob, JStr s) \<Rightarrow>
             (case postProcessFlight lower ob s of Inl e \<Rightarrow> Inl e | Inr out \<Rightarrow> Inr (JObj out))
         | _ \<Rightarrow> Inl TypeError)
      else Inr data)"

definition pipeline :: "'db env \<Rightarrow> json \<Rightarrow> error + json" where
  "pipeline env text =
     (case callLLM (jsonParse env) (provider env) text of
        Inl e \<Rightarrow> Inl e
      | Inr data0 \<Rightarrow>
          let data1 = ensureRequiredKeys data0 in
          (case assertValidOutput data1 of
             Inl e \<Rightarrow> Inl e
           | Inr _ \<Rightarrow>
               (case postProcessData (toLowerCase env) data1 text of
                  Inl e \<Rightarrow> Inl e
                | Inr data2 \<Rightarrow>
                    let data3 = ensureRequiredKeys data2 in
                    (case assertValidOutput data3 of
                       Inl e \<Rightarrow> Inl e
                     | Inr _ \<Rightarrow> Inr data3))))"

text \<open>
  A response: the status and the fields of the JSON body. The message of a caught error
  is kept as the error it is the message of.
\<close>

datatype message = Literal jsstring | MessageOf error

datatype field = Flag bool | Payload json | Message message

record response =
  status :: nat
  body :: "(jsstring \<times> field) list"

text \<open>
  How a handler ends: it has sent a response, or an error left it (thrown inside the
  \<open>catch\<close> block) and it has sent none. Both come with the store.
\<close>

datatype 'db outcome = Responded response 'db | Unhandled error 'db

definition okResponse :: "json \<Rightarrow> response" where
  "okResponse data = \<lparr>status = 200, body = [(js ''ok'', Flag True), (js ''data'', Payload data)]\<rparr>"

definition errorResponse :: "nat \<Rightarrow> message \<Rightarrow> response" where
  "errorResponse code m = \<lparr>status = code, body = [(js ''error'', Message m)]\<rparr>"

text \<open>The body of \<open>POST /api/extract\<close>.\<close>

record textRequest =
  body_text :: "json option"
  body_source_file :: "json option"

text \<open>\<open>req?.body?.text ?? ""\<close>.\<close>

definition inputTextOf :: "textRequest \<Rightarrow> json" where
  "inputTextOf req =
     (case body_text req of None \<Rightarrow> JStr [] | Some JNull \<Rightarrow> JStr [] | Some v \<Rightarrow> v)"

definition extractHandler :: "'db env \<Rightarrow> textRequest \<Rightarrow> 'db \<Rightarrow> 'db outcome" where
  "extractHandler env req db =
     (let inputText = inputTextOf req;
          sourceFile = (case body_source_file req of None \<Rightarrow> JNull | Some v \<Rightarrow> v);
          inputChars = (case inputText of JStr s \<Rightarrow> length s | _ \<Rightarrow> 0);
          row = \<lparr>source_file = sourceFile, input_type = js ''text'', input_chars = inputChars,
                 ocr_used = False, success = False, docType_pred = JNull,
                 json_output = None, parse_error = None\<rparr>;
          catch = (\<lambda>e. case logEvalRun (insertRun env) (row\<lparr>parse_error := Some e\<rparr>) db of
                          Inl e' \<Rightarrow> Unhandled e' db
                        | Inr db' \<Rightarrow> Responded (errorResponse 500 (MessageOf e)) db')
      in if \<not> truthy (Some inputText)
         then Responded (errorResponse 400 (Literal (js ''Missing text''))) db
         else
           (case pipeline env inputText of
              Inl e \<Rightarrow> catch e
            | Inr data \<Rightarrow>
                (case logEvalRun (insertRun env)
                        (row\<lparr>success := True,
                             docType_pred := (case typeTag data of None \<Rightarrow> JNull | Some v \<Rightarrow> v),
                             json_output := Some data\<rparr>) db of
                   Inl e \<Rightarrow> catch e
                 | Inr db' \<Rightarrow> Responded (okResponse data) db')))"

text \<open>
  The body of \<open>POST /api/extract-file\<close>; \<open>req.file\<close> is the upload, if any. The
  \<open>finally\<close> block removes the uploaded file; it touches neither the response nor the
  store and is not part of the outcome.
\<close>

record upload =
  mimetype :: jsstring
  path :: jsstring
  originalname :: jsstring

definition extractFileHandler :: "'db env \<Rightarrow> upload option \<Rightarrow> 'db \<Rightarrow> 'db outcome" where
  "extractFileHandler env file db =
     (let sourceFile = (case file of None \<Rightarrow> JNull | Some f \<Rightarrow> JStr (originalname f));
          row = \<lparr>source_file = sourceFile, input_type = js ''image'', input_chars = 0,
                 ocr_used = True, success = False, docType_pred = JNull,
                 json_output = None, parse_error = None\<rparr>;
          catch = (\<lambda>e. case logEvalRun (insertRun env) (row\<lparr>parse_error := Some e\<rparr>) db of
                          Inl e' \<Rightarrow> Unhandled e' db
                        | Inr db' \<Rightarrow> Responded (errorResponse 500 (MessageOf e)) db')
      in case file of
           None \<Rightarrow> Responded (errorResponse 400 (Literal (js ''Missing file''))) db
         | Some f \<Rightarrow>
             if \<not> prefix (js ''image/'') (mimetype f)
             then Responded (errorResponse 400 (Literal (js ''Only images supported''))) db
             else
               (case extractTextFromImage env (path f) of
                  Inl e \<Rightarrow> catch e
                | Inr ocrText \<Rightarrow>
                    (case pipeline env (JStr ocrText) of
                       Inl e \<Rightarrow> catch e
                     | Inr data \<Rightarrow>
                         (case logEvalRun (insertRun env)
                                 (row\<lparr>input_chars := length ocrText, success := True,
                                      docType_pred :=
                                        (case typeTag data of None \<Rightarrow> JNull | Some v \<Rightarrow> v),
                                      json_output := Some data\<rparr>) db of
                            Inl e \<Rightarrow> catch e
                          | Inr db' \<Rightarrow> Responded (okResponse data) db'))))"

section \<open>What the trip classifier looks for\<close>

text \<open>
  The conditions of the classifier in terms of the text alone: \<open>prefix p (drop k t)\<close>
  says that \<open>p\<close> occurs in \<open>t\<close> at position \<open>k\<close>.

  \<open>k\<close> is the first position from \<open>start\<close> on at which \<open>p\<close> occurs.
\<close>

definition firstFrom :: "jsstring \<Rightarrow> jsstring \<Rightarrow> nat \<Rightarrow> nat \<Rightarrow> bool" where
  "firstFrom t p start k =
     (start \<le> k \<and> prefix p (drop k t) \<and> (\<forall>j \<in> {start ..< k}. \<not> prefix p (drop j t)))"

text \<open>
  The destination occurs at a position that is at or after \<open>c\<close> and fewer than 400 code
  units away from it (an occurrence that begins inside the origin occurrence at \<open>c\<close>
  counts).
\<close>

definition restatedWithin400 :: "jsstring \<Rightarrow> jsstring \<Rightarrow> nat \<Rightarrow> bool" where
  "restatedWithin400 t b c = (\<exists>k \<in> {c ..< c + 400}. prefix b (drop k t))"

text \<open>
  A digit \<open>0\<close> .. \<open>9\<close> stands at a position of the text from 50 before \<open>c\<close> (or the
  start of the text) up to, not including, 100 after \<open>c\<close>.
\<close>

definition digitInWindow :: "jsstring \<Rightarrow> nat \<Rightarrow> bool" where
  "digitInWindow t c = (\<exists>i \<in> {c - 50 ..< c + 100}. i < length t \<and> 48 \<le> t ! i \<and> t ! i \<le> 57)"

section \<open>What the decoder extracts\<close>

text \<open>
  The nesting depth of a text as the decoder counts it: every opening brace adds one,
  every closing brace takes one away, whatever the context.
\<close>

definition braceStep :: "jschar \<Rightarrow> int" where
  "braceStep ch = (if ch = 123 then 1 else if ch = 125 then - 1 else 0)"

definition braceDepth :: "jsstring \<Rightarrow> int" where
  "braceDepth s = sum_list (map braceStep s)"

text \<open>
  \<open>s\<close> is \<open>pre\<close>, then \<open>j\<close>, then \<open>post\<close>, where \<open>j\<close> runs from the first opening
  brace of \<open>s\<close> to the place where the depth first returns to zero.
\<close>

definition firstBalancedObject :: "jsstring \<Rightarrow> jsstring \<Rightarrow> jsstring \<Rightarrow> jsstring \<Rightarrow> bool" where
  "firstBalancedObject s pre j post =
     (s = pre @ j @ post \<and> 123 \<notin> set pre \<and> j \<noteq> [] \<and> hd j = 123 \<and> braceDepth j = 0
      \<and> (\<forall>n \<in> {1 ..< length j}. braceDepth (take n j) \<noteq> 0))"

section \<open>Honorific tokens\<close>

text \<open>
  The honorifics in the words of the specification. A token is a maximal run of token
  characters (ASCII letters, digits, underscore); it is an honorific when it is one of
  these words in any letter case.
\<close>

definition tokenChar :: "jschar \<Rightarrow> bool" where
  "tokenChar c = ((48 \<le> c \<and> c \<le> 57) \<or> (65 \<le> c \<and> c \<le> 90) \<or> c = 95 \<or> (97 \<le> c \<and> c \<le> 122))"

definition upperAscii :: "jschar \<Rightarrow> jschar" where
  "upperAscii c = (if 97 \<le> c \<and> c \<le> 122 then c - 32 else c)"

definition honorificWords :: "jsstring set" where
  "honorificWords = {js ''MR'', js ''MS'', js ''MRS'', js ''MISS'', js ''DR'', js ''PROF''}"

text \<open>The text after a token, less the period that directly follows the token, if any.\<close>

definition afterToken :: "jsstring \<Rightarrow> jsstring" where
  "afterToken rest = (if rest \<noteq> [] \<and> hd rest = 46 then tl rest else rest)"

text \<open>
  The text with every honorific token deleted, together with the period that directly
  follows it; everything else stays as it is.
\<close>

function dropHonorificTokens :: "jsstring \<Rightarrow> jsstring" where
  "dropHonorificTokens [] = []"
| "dropHonorificTokens (c # cs) =
     (if tokenChar c then
        (if map upperAscii (c # takeWhile tokenChar cs) \<in> honorificWords
         then dropHonorificTokens (afterToken (dropWhile tokenChar cs))
         else (c # takeWhile tokenChar cs) @ dropHonorificTokens (dropWhile tokenChar cs))
      else c # dropHonorificTokens cs)"
  by pat_completeness auto
termination
proof (relation "measure length")
  fix c :: jschar and cs :: jsstring
  have "length (afterToken (dropWhile tokenChar cs)) \<le> length (dropWhile tokenChar cs)"
    by (simp add: afterToken_def)
  also have "\<dots> \<le> length cs" by (rule length_dropWhile_le)
  finally show "(afterToken (dropWhile tokenChar cs), c # cs) \<in> measure length"
    by simp
  show "(dropWhile tokenChar cs, c # cs) \<in> measure length"
    by (simp add: less_Suc_eq_le length_dropWhile_le)
qed auto

section \<open>Name words\<close>

text \<open>
  The words of a name in the words of the specification: the maximal runs of name
  characters (ASCII letters, U+00C0 .. U+00FF, apostrophe, hyphen); every other code
  unit separates words.
\<close>

definition nameUnit :: "jschar \<Rightarrow> bool" where
  "nameUnit c = ((65 \<le> c \<and> c \<le> 90) \<or> (97 \<le> c \<and> c \<le> 122) \<or> (192 \<le> c \<and> c \<le> 255)
                 \<or> c = 39 \<or> c = 45)"

function nameWords :: "jsstring \<Rightarrow> jsstring list" where
  "nameWords [] = []"
| "nameWords (c # cs) =
     (if nameUnit c then (c # takeWhile nameUnit cs) # nameWords (dropWhile nameUnit cs)
      else nameWords cs)"
  by pat_completeness auto
termination
  by (relation "measure length") (auto simp: less_Suc_eq_le length_dropWhile_le)

text \<open>The words with one space between neighbours.\<close>

primrec joinWords :: "jsstring list \<Rightarrow> jsstring" where
  "joinWords [] = []"
| "joinWords (w # ws) = (if ws = [] then w else w @ 32 # joinWords ws)"

section \<open>What a cleaned name looks like\<close>

text \<open>
  The code units that the name filter keeps and that are not white space: ASCII letters,
  U+00C0 .. U+00FF, apostrophe, hyphen.
\<close>

definition nameChar :: "jschar \<Rightarrow> bool" where
  "nameChar c = (isAsciiUpper c \<or> isAsciiLower c \<or> inLatin1Range c \<or> c = 39 \<or> c = 45)"

text \<open>
  What a cleaned name is made of: \<open>A-Z\<close>, U+00C0 .. U+00DE, the division sign U+00F7,
  U+0178, space, apostrophe, hyphen.
\<close>

definition upperNameChar :: "jschar \<Rightarrow> bool" where
  "upperNameChar c =
     (isAsciiUpper c \<or> (192 \<le> c \<and> c \<le> 222) \<or> c = 247 \<or> c = 376 \<or> c = 32 \<or> c = 39 \<or> c = 45)"

text \<open>No two spaces in a row.\<close>

fun noDoubleSpace :: "jsstring \<Rightarrow> bool" where
  "noDoubleSpace (c # d # cs) = (\<not> (c = 32 \<and> d = 32) \<and> noDoubleSpace (d # cs))"
| "noDoubleSpace _ = True"

section \<open>Sample inputs\<close>

text \<open>
  \<open>toLowerCase\<close> restricted to ASCII: what the built-in does on a text without code
  units from 128 on.
\<close>

definition asciiLower :: "jsstring \<Rightarrow> jsstring" where
  "asciiLower s = map (\<lambda>c. if isAsciiUpper c then c + 32 else c) s"

text \<open>A flight record as the model may return it, and one without an origin city.\<close>

definition sampleFlight :: obj where
  "sampleFlight =
     [(js ''type'', JStr (js ''flight'')),
      (js ''passengerName'', JStr (js ''MR. JOHN A. SMITH'')),
      (js ''tripType'', JStr (js ''round_trip'')),
      (js ''overallFrom'', JStr (js ''LONDON'')),
      (js ''overallTo'', JStr (js ''PARIS'')),
      (js ''returnDate'', JStr (js ''2024-05-01''))]"

definition noOriginFlight :: obj where
  "noOriginFlight =
     [(js ''type'', JStr (js ''flight'')),
      (js ''tripType'', JStr (js ''round_trip'')),
      (js ''overallFrom'', JNull),
      (js ''overallTo'', JStr (js ''PARIS'')),
      (js ''returnDate'', JStr (js ''2024-05-01''))]"

text \<open>
  Flights between \<open>YORK\<close> and \<open>NEW YORK\<close>, where one city name occurs inside the
  other.
\<close>

definition yorkFlight :: obj where
  "yorkFlight =
     [(js ''type'', JStr (js ''flight'')),
      (js ''tripType'', JStr (js ''one_way'')),
      (js ''overallFrom'', JStr (js ''YORK'')),
      (js ''overallTo'', JStr (js ''NEW YORK'')),
      (js ''returnDate'', JStr (js ''2024-05-01''))]"




text \<open>
  An environment to run the handlers in: the provider answers with a bare hotel object,
  \<open>JSON.parse\<close> is cut down to that one text, OCR reads a fixed line, and the store is
  the list of rows with an \<open>INSERT\<close> that never fails.
\<close>

definition hotelJson :: jsstring where
  \<open>hotelJson = js ''{"type":"hotel"}''\<close>

definition sampleParse :: "jsstring \<Rightarrow> json option" where
  "sampleParse s = (if s = hotelJson then Some (JObj [(js ''type'', JStr (js ''hotel''))]) else None)"

definition sampleEnv :: "evalRow list env" where
  "sampleEnv =
     \<lparr>toLowerCase = asciiLower, jsonParse = sampleParse, provider = (\<lambda>_. Inr hotelJson),
      extractTextFromImage = (\<lambda>_. Inr (js ''Grand Hotel invoice 42'')), insertRun = appendRow\<rparr>"

text \<open>What the pipeline makes of the provider's answer: every required key, all null.\<close>

definition completedHotel :: json where
  "completedHotel =
     JObj [(js ''type'', JStr (js ''hotel'')), (js ''guestName'', JNull), (js ''hotelName'', JNull),
           (js ''receiptNumber'', JNull), (js ''hotelCity'', JNull), (js ''checkInDate'', JNull),
           (js ''checkOutDate'', JNull), (js ''currency'', JNull), (js ''totalPrice'', JNull)]"

text \<open>A request with text, a request without, and an uploaded image.\<close>

definition sampleRequest :: textRequest where
  "sampleRequest = \<lparr>body_text = Some (JStr (js ''Grand Hotel invoice 42'')), body_source_file = None\<rparr>"

definition emptyRequest :: textRequest where
  "emptyRequest = \<lparr>body_text = None, body_source_file = None\<rparr>"

definition sampleUpload :: upload where
  "sampleUpload = \<lparr>mimetype = js ''image/png'', path = js ''uploads/1'', originalname = js ''a.png''\<rparr>"

text \<open>Replies of the model: prose, a fenced object, prose; and an object cut short.\<close>

definition truncatedReply :: jsstring where
  \<open>truncatedReply = js ''{"type":''\<close>


text \<open>
  A reply whose prose has braces of its own before the object, and an object with a run
  of three backticks inside a string, with what is left of it without the run.
\<close>

definition proseBraceReply :: jsstring where
  \<open>proseBraceReply = js ''Result {see below}: {"type":"hotel"}''\<close>

definition tickedObject :: jsstring where
  \<open>tickedObject = js ''{"n":"a```b"}''\<close>

definition tickedStripped :: jsstring where
  \<open>tickedStripped = js ''{"n":"ab"}''\<close>

definition fencedReply :: jsstring where
  \<open>fencedReply =
     js ''Here is the result:'' @ [10] @ js ''```json'' @ [10] @ hotelJson @ [10] @ js ''```''
       @ [10] @ js ''Thanks!''\<close>

section \<open>Objects, searching and the scan for a return leg\<close>

lemma getProp_setProp: "getProp (setProp k v ob) k' = (if k' = k then Some v else getProp ob k')"
  by (simp add: getProp_def setProp_def update_conv')


lemma find_upt_Some:
  "List.find P [i ..< n] = Some k \<longleftrightarrow>
     i \<le> k \<and> k < n \<and> P k \<and> (\<forall>j. i \<le> j \<and> j < k \<longrightarrow> \<not> P j)"
proof
  assume "List.find P [i ..< n] = Some k"
  then obtain d where d: "d < length [i ..< n]" "P ([i ..< n] ! d)" "k = [i ..< n] ! d"
    "\<forall>j<d. \<not> P ([i ..< n] ! j)"
    unfolding find_Some_iff by blast
  from d(1) have dn: "i + d < n" by simp
  then have k: "k = i + d" using d(3) by simp
  have "\<not> P j" if "i \<le> j" "j < k" for j
  proof -
    from that k have "j - i < d" by arith
    with d(4) have "\<not> P ([i ..< n] ! (j - i))" by blast
    moreover have "[i ..< n] ! (j - i) = j" using that k dn by simp
    ultimately show ?thesis by simp
  qed
  with k dn d(2) show "i \<le> k \<and> k < n \<and> P k \<and> (\<forall>j. i \<le> j \<and> j < k \<longrightarrow> \<not> P j)"
    by simp
next
  assume r: "i \<le> k \<and> k < n \<and> P k \<and> (\<forall>j. i \<le> j \<and> j < k \<longrightarrow> \<not> P j)"
  then have ik: "i \<le> k" "k < n" by simp_all
  then have "k - i < length [i ..< n]" "[i ..< n] ! (k - i) = k" by auto
  moreover have "\<forall>j<k - i. \<not> P ([i ..< n] ! j)"
  proof (intro allI impI)
    fix j assume "j < k - i"
    then have "[i ..< n] ! j = i + j" "i \<le> i + j" "i + j < k" using ik by auto
    with r show "\<not> P ([i ..< n] ! j)" by metis
  qed
  ultimately show "List.find P [i ..< n] = Some k"
    unfolding find_Some_iff using r by metis
qed

lemma indexOf_Some_iff:
  "indexOf s p i = Some k \<longleftrightarrow>
     i \<le> k \<and> occursAt s p k \<and> (\<forall>j. i \<le> j \<and> j < k \<longrightarrow> \<not> occursAt s p j)"
  unfolding indexOf_def find_upt_Some by (auto simp: occursAt_def)

lemma indexOf_None_iff:
  "indexOf s p i = None \<longleftrightarrow> (\<forall>k. i \<le> k \<longrightarrow> \<not> occursAt s p k)"
  unfolding indexOf_def find_None_iff by (auto simp: occursAt_def)

lemma scanReturnLeg_None_iff:
  "scanReturnLeg t a b cursor = None \<longleftrightarrow>
     (\<forall>c. cursor \<le> c \<and> occursAt t a c \<longrightarrow> isRepetition t b c \<or> \<not> hasDigit t c)"
proof (induction t a b cursor rule: scanReturnLeg.induct)
  case (1 t a b cursor)
  show ?case
  proof (cases "indexOf t a cursor")
    case None
    then have "scanReturnLeg t a b cursor = None"
      by (subst scanReturnLeg.simps) simp
    moreover have "\<forall>k. cursor \<le> k \<longrightarrow> \<not> occursAt t a k"
      using None by (simp add: indexOf_None_iff)
    ultimately show ?thesis by auto
  next
    case (Some c)
    note c = Some [unfolded indexOf_Some_iff]
    show ?thesis
    proof (cases "\<not> isRepetition t b c \<and> hasDigit t c")
      case True
      with Some c show ?thesis
        by (subst scanReturnLeg.simps) auto
    next
      case False
      have "scanReturnLeg t a b cursor = scanReturnLeg t a b (Suc c)"
        using Some False by (subst scanReturnLeg.simps) auto
      also have "\<dots> = None \<longleftrightarrow>
        (\<forall>c'. Suc c \<le> c' \<and> occursAt t a c' \<longrightarrow> isRepetition t b c' \<or> \<not> hasDigit t c')"
        using "1.IH" [OF Some] False by blast
      also have "\<dots> \<longleftrightarrow>
        (\<forall>c'. cursor \<le> c' \<and> occursAt t a c' \<longrightarrow> isRepetition t b c' \<or> \<not> hasDigit t c')"
      proof (intro iffI allI impI)
        fix c' assume h: "\<forall>c'. Suc c \<le> c' \<and> occursAt t a c' \<longrightarrow> isRepetition t b c' \<or> \<not> hasDigit t c'"
          and c': "cursor \<le> c' \<and> occursAt t a c'"
        consider "c' < c" | "c' = c" | "Suc c \<le> c'" by arith
        then show "isRepetition t b c' \<or> \<not> hasDigit t c'"
          using c c' h False by cases auto
      next
        fix c' assume h: "\<forall>c'. cursor \<le> c' \<and> occursAt t a c' \<longrightarrow> isRepetition t b c' \<or> \<not> hasDigit t c'"
          and c': "Suc c \<le> c' \<and> occursAt t a c'"
        then show "isRepetition t b c' \<or> \<not> hasDigit t c'"
          using c by (meson Suc_leD le_trans)
      qed
      finally show ?thesis .
    qed
  qed
qed


text \<open>The definitions that evaluating a concrete input unfolds.\<close>

lemmas eval_defs = postProcessFlight_def getProp_def setProp_def js_def
     cleanNameAllCaps_def cleanTicketNumber_def lowerOrEmpty_def asciiLower_def isAsciiUpper_def
     classifyTrip_def indexOf_def occursAt_def isRepetition_def hasDigit_def slice_def
     matchHonorific_def honorifics_def matchAlt_def prefixCI_def foldCase_def isAsciiLower_def
     trim_def keepName_def isSpace_def inLatin1Range_def toUpperCaseName_def upperUnit_def
     isWordChar_def isDigit_def

text \<open>What the two checks of the scan say about the text.\<close>

lemma isRepetition_iff:
  "isRepetition t b c \<longleftrightarrow> (\<exists>k. c \<le> k \<and> k < c + 400 \<and> occursAt t b k)"
proof (cases "indexOf t b c")
  case None
  then have "\<not> isRepetition t b c"
    by (simp add: isRepetition_def)
  moreover have "\<forall>k. c \<le> k \<longrightarrow> \<not> occursAt t b k"
    using None by (simp add: indexOf_None_iff)
  ultimately show ?thesis by blast
next
  case (Some n)
  note n = Some [unfolded indexOf_Some_iff]
  have "n - c < 400 \<longleftrightarrow> (\<exists>k. c \<le> k \<and> k < c + 400 \<and> occursAt t b k)"
  proof
    assume "n - c < 400"
    then have "n < c + 400" by arith
    with n show "\<exists>k. c \<le> k \<and> k < c + 400 \<and> occursAt t b k" by blast
  next
    assume "\<exists>k. c \<le> k \<and> k < c + 400 \<and> occursAt t b k"
    then obtain k where k: "c \<le> k" "k < c + 400" "occursAt t b k" by blast
    with n have "\<not> k < n" by blast
    with k show "n - c < 400" by arith
  qed
  with Some show ?thesis by (simp add: isRepetition_def)
qed

lemma hasDigit_iff:
  "hasDigit t c \<longleftrightarrow> (\<exists>i. c - 50 \<le> i \<and> i < c + 100 \<and> i < length t \<and> isDigit (t ! i))"
proof
  assume "hasDigit t c"
  then obtain x where x: "x \<in> set (take (c + 100 - (c - 50)) (drop (c - 50) t))" "isDigit x"
    by (auto simp: hasDigit_def slice_def list_ex_iff)
  then obtain j where j: "j < length (take (c + 100 - (c - 50)) (drop (c - 50) t))"
    "x = take (c + 100 - (c - 50)) (drop (c - 50) t) ! j"
    by (metis in_set_conv_nth)
  then have "x = t ! (c - 50 + j)" "c - 50 + j < length t" "c - 50 + j < c + 100"
    by auto
  with x show "\<exists>i. c - 50 \<le> i \<and> i < c + 100 \<and> i < length t \<and> isDigit (t ! i)"
    by (metis le_add1)
next
  assume "\<exists>i. c - 50 \<le> i \<and> i < c + 100 \<and> i < length t \<and> isDigit (t ! i)"
  then obtain i where i: "c - 50 \<le> i" "i < c + 100" "i < length t" "isDigit (t ! i)" by blast
  let ?w = "take (c + 100 - (c - 50)) (drop (c - 50) t)"
  have "i - (c - 50) < length ?w" using i by auto
  moreover have "?w ! (i - (c - 50)) = t ! i" using i by auto
  ultimately have "t ! i \<in> set ?w" by (metis nth_mem)
  with i show "hasDigit t c"
    by (auto simp: hasDigit_def slice_def list_ex_iff)
qed

section \<open>Flight post-processing: trip type, return date and frame\<close>

lemma postProcessFlight_Inr:
  assumes "postProcessFlight lower flightObj originalText = Inr out"
  shows "\<exists>a b. lowerOrEmpty lower (getProp flightObj (js ''overallFrom'')) = Inr a \<and>
               lowerOrEmpty lower (getProp flightObj (js ''overallTo'')) = Inr b \<and>
               out = classifyTrip (lower originalText) a b
                       (setProp (js ''tripType'') (JStr (js ''one_way''))
                         (setProp (js ''ticketNumber'')
                            (cleanTicketNumber (getProp
                               (setProp (js ''passengerName'')
                                  (cleanNameAllCaps (getProp flightObj (js ''passengerName'')))
                                  flightObj) (js ''ticketNumber'')))
                            (setProp (js ''passengerName'')
                               (cleanNameAllCaps (getProp flightObj (js ''passengerName'')))
                               flightObj)))"
proof -
  have ne: "js ''overallFrom'' \<noteq> js ''passengerName''" "js ''overallFrom'' \<noteq> js ''ticketNumber''"
    "js ''overallTo'' \<noteq> js ''passengerName''" "js ''overallTo'' \<noteq> js ''ticketNumber''"
    by (simp_all add: js_def)
  show ?thesis
    using assms unfolding postProcessFlight_def Let_def
    by (auto simp: getProp_setProp ne split: sum.splits)
qed

lemma classifyTrip_tripType:
  assumes "getProp out (js ''tripType'') = Some (JStr (js ''one_way''))"
  shows "getProp (classifyTrip t a b out) (js ''tripType'') = Some (JStr (js ''one_way''))
       \<or> getProp (classifyTrip t a b out) (js ''tripType'') = Some (JStr (js ''round_trip''))"
proof -
  have ne: "js ''tripType'' \<noteq> js ''returnDate''" by (simp add: js_def)
  show ?thesis
    using assms unfolding classifyTrip_def Let_def by (simp add: getProp_setProp ne)
qed

lemma classifyTrip_frame:
  assumes "k \<noteq> js ''tripType''" "k \<noteq> js ''returnDate''"
  shows "getProp (classifyTrip t a b out) k = getProp out k"
  using assms unfolding classifyTrip_def Let_def by (simp add: getProp_setProp)

text \<open>
  C10. Whenever \<open>postProcessFlight\<close> returns a record, its \<open>tripType\<close> is exactly
  \<open>"one_way"\<close> or \<open>"round_trip"\<close>, and every field other than \<open>passengerName\<close>,
  \<open>ticketNumber\<close>, \<open>tripType\<close> and \<open>returnDate\<close> reads as in the input record.
\<close>

theorem postProcessFlight_tripType_and_frame:
  assumes "postProcessFlight lower flightObj originalText = Inr out"
  shows "(getProp out (js ''tripType'') = Some (JStr (js ''one_way''))
          \<or> getProp out (js ''tripType'') = Some (JStr (js ''round_trip'')))
       \<and> (\<forall>k. k \<notin> {js ''passengerName'', js ''ticketNumber'', js ''tripType'', js ''returnDate''}
              \<longrightarrow> getProp out k = getProp flightObj k)"
proof -
  from postProcessFlight_Inr [OF assms] obtain a b mid where
    out: "out = classifyTrip (lower originalText) a b (setProp (js ''tripType'') (JStr (js ''one_way'')) mid)"
    and mid: "mid = setProp (js ''ticketNumber'')
                            (cleanTicketNumber (getProp
                               (setProp (js ''passengerName'')
                                  (cleanNameAllCaps (getProp flightObj (js ''passengerName'')))
                                  flightObj) (js ''ticketNumber'')))
                            (setProp (js ''passengerName'')
                               (cleanNameAllCaps (getProp flightObj (js ''passengerName'')))
                               flightObj)"
    by blast
  have "getProp (setProp (js ''tripType'') (JStr (js ''one_way'')) mid) (js ''tripType'')
        = Some (JStr (js ''one_way''))"
    by (simp add: getProp_setProp)
  from classifyTrip_tripType [OF this] have tt:
    "getProp out (js ''tripType'') = Some (JStr (js ''one_way''))
     \<or> getProp out (js ''tripType'') = Some (JStr (js ''round_trip''))"
    unfolding out .
  have "getProp out k = getProp flightObj k"
    if "k \<notin> {js ''passengerName'', js ''ticketNumber'', js ''tripType'', js ''returnDate''}" for k
    using that unfolding out mid by (simp add: classifyTrip_frame getProp_setProp)
  with tt show ?thesis by blast
qed


theorem postProcessFlight_tripType_and_frame_witness:
  "postProcessFlight asciiLower sampleFlight (js ''LONDON to PARIS'') =
     Inr [(js ''type'', JStr (js ''flight'')),
          (js ''passengerName'', JStr (js ''JOHN A SMITH'')),
          (js ''tripType'', JStr (js ''one_way'')),
          (js ''overallFrom'', JStr (js ''LONDON'')),
          (js ''overallTo'', JStr (js ''PARIS'')),
          (js ''returnDate'', JNull),
          (js ''ticketNumber'', JNull)]
   \<and> getProp [(js ''type'', JStr (js ''flight'')),
          (js ''passengerName'', JStr (js ''JOHN A SMITH'')),
          (js ''tripType'', JStr (js ''one_way'')),
          (js ''overallFrom'', JStr (js ''LONDON'')),
          (js ''overallTo'', JStr (js ''PARIS'')),
          (js ''returnDate'', JNull),
          (js ''ticketNumber'', JNull)] (js ''overallTo'') = getProp sampleFlight (js ''overallTo'')"
proof -
  have h: "postProcessFlight asciiLower sampleFlight (js ''LONDON to PARIS'') =
     Inr [(js ''type'', JStr (js ''flight'')),
          (js ''passengerName'', JStr (js ''JOHN A SMITH'')),
          (js ''tripType'', JStr (js ''one_way'')),
          (js ''overallFrom'', JStr (js ''LONDON'')),
          (js ''overallTo'', JStr (js ''PARIS'')),
          (js ''returnDate'', JNull),
          (js ''ticketNumber'', JNull)]"
    by (simp add: eval_defs sampleFlight_def)
  have k: "js ''overallTo'' \<notin> {js ''passengerName'', js ''ticketNumber'', js ''tripType'', js ''returnDate''}"
    by (simp add: js_def)
  from postProcessFlight_tripType_and_frame [OF h] k h show ?thesis by blast
qed

text \<open>
  C1. The claim: a returned record with \<open>tripType = "one_way"\<close> has \<open>returnDate = null\<close>.
  With no origin city the function leaves through its early return, before the line that
  clears the return date: the record comes back \<open>one_way\<close> with the model's return date.
\<close>

theorem postProcessFlight_one_way_keeps_returnDate:
  "postProcessFlight asciiLower noOriginFlight (js ''Flight to PARIS'') =
     Inr [(js ''type'', JStr (js ''flight'')),
          (js ''tripType'', JStr (js ''one_way'')),
          (js ''overallFrom'', JNull),
          (js ''overallTo'', JStr (js ''PARIS'')),
          (js ''returnDate'', JStr (js ''2024-05-01'')),
          (js ''passengerName'', JNull),
          (js ''ticketNumber'', JNull)]"
  by (simp add: eval_defs noOriginFlight_def)

lemma occursAt_prefix: "p \<noteq> [] \<Longrightarrow> occursAt s p k \<longleftrightarrow> prefix p (drop k s)"
proof
  assume "occursAt s p k"
  then have "take (length p) (drop k s) = p" by (simp add: occursAt_def)
  then have "drop k s = p @ drop (length p) (drop k s)"
    by (metis append_take_drop_id)
  then show "prefix p (drop k s)" by (metis prefixI)
next
  assume ne: "p \<noteq> []" and "prefix p (drop k s)"
  then obtain zs where z: "drop k s = p @ zs" by (auto simp: prefix_def)
  then have "take (length p) (drop k s) = p" by simp
  moreover have "length (drop k s) = length p + length zs" using z by simp
  then have "k + length p \<le> length s" using ne by (cases p) auto
  ultimately show "occursAt s p k" by (simp add: occursAt_def)
qed

lemma firstFrom_iff: "p \<noteq> [] \<Longrightarrow> indexOf t p i = Some k \<longleftrightarrow> firstFrom t p i k"
  by (auto simp: indexOf_Some_iff firstFrom_def occursAt_prefix)

lemma restatedWithin400_iff: "b \<noteq> [] \<Longrightarrow> isRepetition t b c \<longleftrightarrow> restatedWithin400 t b c"
  by (auto simp: isRepetition_iff restatedWithin400_def occursAt_prefix)

lemma digitInWindow_iff: "hasDigit t c \<longleftrightarrow> digitInWindow t c"
  by (auto simp: hasDigit_iff digitInWindow_def isDigit_def)

lemma postProcessFlight_classified:
  assumes a: "lowerOrEmpty lower (getProp flightObj (js ''overallFrom'')) = Inr a"
    and b: "lowerOrEmpty lower (getProp flightObj (js ''overallTo'')) = Inr b"
  shows "postProcessFlight lower flightObj originalText =
           Inr (classifyTrip (lower originalText) a b
                 (setProp (js ''tripType'') (JStr (js ''one_way''))
                   (setProp (js ''ticketNumber'')
                      (cleanTicketNumber (getProp flightObj (js ''ticketNumber'')))
                      (setProp (js ''passengerName'')
                         (cleanNameAllCaps (getProp flightObj (js ''passengerName'')))
                         flightObj))))"
proof -
  have neq: "js ''overallFrom'' \<noteq> js ''passengerName''" "js ''overallFrom'' \<noteq> js ''ticketNumber''"
    "js ''overallTo'' \<noteq> js ''passengerName''" "js ''overallTo'' \<noteq> js ''ticketNumber''"
    "js ''ticketNumber'' \<noteq> js ''passengerName''"
    by (simp_all add: js_def)
  show ?thesis
    unfolding postProcessFlight_def Let_def
    by (simp add: getProp_setProp neq a b)
qed

lemma one_way_result:
  assumes a: "lowerOrEmpty lower (getProp flightObj (js ''overallFrom'')) = Inr a"
    and b: "lowerOrEmpty lower (getProp flightObj (js ''overallTo'')) = Inr b"
    and ne: "a \<noteq> []" "b \<noteq> []"
    and none: "\<forall>idxA idxB. indexOf (lower originalText) a 0 = Some idxA
                 \<and> indexOf (lower originalText) b idxA = Some idxB
               \<longrightarrow> scanReturnLeg (lower originalText) a b idxB = None"
  shows "\<exists>out. postProcessFlight lower flightObj originalText = Inr out
              \<and> getProp out (js ''tripType'') = Some (JStr (js ''one_way''))
              \<and> getProp out (js ''returnDate'') = Some JNull"
proof -
  have neq: "js ''tripType'' \<noteq> js ''returnDate''" by (simp add: js_def)
  have cls: "classifyTrip (lower originalText) a b out = setProp (js ''returnDate'') JNull out" for out
    unfolding classifyTrip_def Let_def using ne none by auto
  show ?thesis
    unfolding postProcessFlight_classified [OF a b] cls
    by (simp add: getProp_setProp neq)
qed


text \<open>
  C5, as claimed: with an origin mention, then a destination mention and no later origin
  mention, the record comes back \<open>one_way\<close> with \<open>returnDate = null\<close>. The scan for
  the origin starts at the first code unit of the destination occurrence, not after it:
  with origin \<open>YORK\<close> and destination \<open>NEW YORK\<close> the \<open>YORK\<close> inside the destination
  is taken for a return leg.
\<close>

theorem postProcessFlight_origin_inside_destination:
  "postProcessFlight asciiLower yorkFlight (js ''YORK to NEW YORK 12:00'') =
     Inr [(js ''type'', JStr (js ''flight'')),
          (js ''tripType'', JStr (js ''round_trip'')),
          (js ''overallFrom'', JStr (js ''YORK'')),
          (js ''overallTo'', JStr (js ''NEW YORK'')),
          (js ''returnDate'', JStr (js ''2024-05-01'')),
          (js ''passengerName'', JNull),
          (js ''ticketNumber'', JNull)]"
  by (simp add: eval_defs yorkFlight_def)

text \<open>
  C5, amended. Origin and destination lower-case to non-empty strings \<open>a\<close> and \<open>b\<close>;
  \<open>idxA\<close> is the first occurrence of \<open>a\<close> in the lower-cased text and \<open>idxB\<close> the first
  occurrence of \<open>b\<close> from \<open>idxA\<close> on. If every occurrence of \<open>a\<close> that starts at
  \<open>idxB\<close> or later (inside the destination occurrence or after it) has the destination
  restated within 400 or no digit in its window, the record comes back \<open>one_way\<close> with
  \<open>returnDate = null\<close>, whatever the model had put in the two fields; so it does, in
  particular, when \<open>a\<close> does not occur from \<open>idxB\<close> on at all.
\<close>

theorem postProcessFlight_no_return_leg:
  assumes a: "lowerOrEmpty lower (getProp flightObj (js ''overallFrom'')) = Inr a"
    and b: "lowerOrEmpty lower (getProp flightObj (js ''overallTo'')) = Inr b"
    and ne: "a \<noteq> []" "b \<noteq> []"
    and t: "t = lower originalText"
  shows "((\<forall>idxA idxB c. firstFrom t a 0 idxA \<and> firstFrom t b idxA idxB
                \<and> idxB \<le> c \<and> prefix a (drop c t)
              \<longrightarrow> restatedWithin400 t b c \<or> \<not> digitInWindow t c)
          \<longrightarrow> (\<exists>out. postProcessFlight lower flightObj originalText = Inr out
                  \<and> getProp out (js ''tripType'') = Some (JStr (js ''one_way''))
                  \<and> getProp out (js ''returnDate'') = Some JNull))
       \<and> ((\<forall>idxA idxB c. firstFrom t a 0 idxA \<and> firstFrom t b idxA idxB \<and> idxB \<le> c
              \<longrightarrow> \<not> prefix a (drop c t))
          \<longrightarrow> (\<exists>out. postProcessFlight lower flightObj originalText = Inr out
                  \<and> getProp out (js ''tripType'') = Some (JStr (js ''one_way''))
                  \<and> getProp out (js ''returnDate'') = Some JNull))"
proof -
  have main: "\<exists>out. postProcessFlight lower flightObj originalText = Inr out
                  \<and> getProp out (js ''tripType'') = Some (JStr (js ''one_way''))
                  \<and> getProp out (js ''returnDate'') = Some JNull"
    if h: "\<forall>idxA idxB c. firstFrom t a 0 idxA \<and> firstFrom t b idxA idxB
                \<and> idxB \<le> c \<and> prefix a (drop c t)
              \<longrightarrow> restatedWithin400 t b c \<or> \<not> digitInWindow t c"
  proof (rule one_way_result [OF a b ne], intro allI impI)
    fix idxA idxB
    assume "indexOf (lower originalText) a 0 = Some idxA
            \<and> indexOf (lower originalText) b idxA = Some idxB"
    then have f: "firstFrom t a 0 idxA" "firstFrom t b idxA idxB"
      using ne by (simp_all add: firstFrom_iff t)
    have "\<forall>c. idxB \<le> c \<and> prefix a (drop c t)
              \<longrightarrow> restatedWithin400 t b c \<or> \<not> digitInWindow t c"
      using h f by blast
    then have "scanReturnLeg t a b idxB = None"
      unfolding scanReturnLeg_None_iff
      using ne by (simp add: occursAt_prefix restatedWithin400_iff digitInWindow_iff)
    then show "scanReturnLeg (lower originalText) a b idxB = None" by (simp add: t)
  qed
  then show ?thesis by blast
qed

theorem postProcessFlight_no_return_leg_witness:
  "(\<exists>out. postProcessFlight asciiLower sampleFlight (js ''LONDON to PARIS 10:00 LONDON to PARIS'')
           = Inr out
         \<and> getProp out (js ''tripType'') = Some (JStr (js ''one_way''))
         \<and> getProp out (js ''returnDate'') = Some JNull)
   \<and> (\<exists>out. postProcessFlight asciiLower sampleFlight (js ''LONDON to PARIS'') = Inr out
         \<and> getProp out (js ''tripType'') = Some (JStr (js ''one_way''))
         \<and> getProp out (js ''returnDate'') = Some JNull)"
proof -
  let ?t1 = "js ''london to paris 10:00 london to paris''"
  let ?t2 = "js ''london to paris''"
  have a: "lowerOrEmpty asciiLower (getProp sampleFlight (js ''overallFrom'')) = Inr (js ''london'')"
    by (simp add: eval_defs sampleFlight_def)
  have b: "lowerOrEmpty asciiLower (getProp sampleFlight (js ''overallTo'')) = Inr (js ''paris'')"
    by (simp add: eval_defs sampleFlight_def)
  have ne: "js ''london'' \<noteq> []" "js ''paris'' \<noteq> []" by (simp_all add: js_def)
  have t1: "?t1 = asciiLower (js ''LONDON to PARIS 10:00 LONDON to PARIS'')"
    by (simp add: eval_defs)
  have t2: "?t2 = asciiLower (js ''LONDON to PARIS'')"
    by (simp add: eval_defs)
  have ia1: "indexOf ?t1 (js ''london'') 0 = Some 0" and ib1: "indexOf ?t1 (js ''paris'') 0 = Some 10"
    and sc1: "scanReturnLeg ?t1 (js ''london'') (js ''paris'') 10 = None"
    by code_simp+
  have ia2: "indexOf ?t2 (js ''london'') 0 = Some 0" and ib2: "indexOf ?t2 (js ''paris'') 0 = Some 10"
    and no2: "indexOf ?t2 (js ''london'') 10 = None"
    by code_simp+
  have h1: "\<forall>idxA idxB c. firstFrom ?t1 (js ''london'') 0 idxA \<and> firstFrom ?t1 (js ''paris'') idxA idxB
                \<and> idxB \<le> c \<and> prefix (js ''london'') (drop c ?t1)
              \<longrightarrow> restatedWithin400 ?t1 (js ''paris'') c \<or> \<not> digitInWindow ?t1 c"
    using sc1 [unfolded scanReturnLeg_None_iff] ia1 ib1 ne
    by (auto simp: firstFrom_iff [symmetric] occursAt_prefix [symmetric]
        restatedWithin400_iff [symmetric] digitInWindow_iff [symmetric])
  have h2: "\<forall>idxA idxB c. firstFrom ?t2 (js ''london'') 0 idxA \<and> firstFrom ?t2 (js ''paris'') idxA idxB
                \<and> idxB \<le> c \<longrightarrow> \<not> prefix (js ''london'') (drop c ?t2)"
    using no2 [unfolded indexOf_None_iff] ia2 ib2 ne
    by (auto simp: firstFrom_iff [symmetric] occursAt_prefix [symmetric])
  from postProcessFlight_no_return_leg [OF a b ne t1] h1
  have "\<exists>out. postProcessFlight asciiLower sampleFlight (js ''LONDON to PARIS 10:00 LONDON to PARIS'')
           = Inr out
         \<and> getProp out (js ''tripType'') = Some (JStr (js ''one_way''))
         \<and> getProp out (js ''returnDate'') = Some JNull"
    by blast
  moreover
  from postProcessFlight_no_return_leg [OF a b ne t2] h2
  have "\<exists>out. postProcessFlight asciiLower sampleFlight (js ''LONDON to PARIS'') = Inr out
         \<and> getProp out (js ''tripType'') = Some (JStr (js ''one_way''))
         \<and> getProp out (js ''returnDate'') = Some JNull"
    by blast
  ultimately show ?thesis by blast
qed





section \<open>Completion and validation\<close>







section \<open>Running the handlers on the sample environment\<close>

lemmas handler_eval_defs = pipeline_def callLLM_def decodeResponse_def stripCodeFences_def
  hotelJson_def sampleParse_def sampleEnv_def completedHotel_def sampleRequest_def
  emptyRequest_def sampleUpload_def inputTextOf_def
  fenceJson_def prefixCI_def foldCase_def isAsciiLower_def trim_def isSpace_def
  assertValidOutput_def requireKeys_def fillKeys_def hotelKeys_def flightKeys_def hasKey_def
  getProp_def setProp_def postProcessData_def js_def

lemma pipeline_sample:
  "pipeline (sampleEnv\<lparr>insertRun := ins\<rparr>) (JStr (js ''Grand Hotel invoice 42'')) = Inr completedHotel"
  by (simp add: handler_eval_defs)


lemma pipeline_valid: "pipeline env text = Inr data \<Longrightarrow> assertValidOutput data = Inr ()"
  unfolding pipeline_def Let_def by (auto split: sum.splits)

section \<open>The recorder on the response path\<close>

text \<open>
  C2, as claimed: when the pipeline succeeds, a failure of the recorder leaves the
  successful response in place. It does not: the call of \<open>logEvalRun\<close> stands inside the
  \<open>try\<close> block, so its error reaches the \<open>catch\<close> block, which answers with status
  500. Here the store refuses the success row and takes the failure row.
\<close>

theorem recorder_failure_turns_success_into_error:
  "pipeline (sampleEnv\<lparr>insertRun := strictInsert\<rparr>) (inputTextOf sampleRequest) = Inr completedHotel
   \<and> extractHandler (sampleEnv\<lparr>insertRun := strictInsert\<rparr>) sampleRequest [] =
       Responded (errorResponse 500 (MessageOf (RecorderError (js ''string or blob too big''))))
         [\<lparr>source_file = JNull, input_type = js ''text'', input_chars = 22, ocr_used = False,
           success = False, docType_pred = JNull, json_output = None,
           parse_error = Some (RecorderError (js ''string or blob too big''))\<rparr>]"
proof -
  have p: "pipeline (sampleEnv\<lparr>insertRun := strictInsert\<rparr>) (JStr (js ''Grand Hotel invoice 42''))
           = Inr completedHotel"
    by (rule pipeline_sample)
  have i: "inputTextOf sampleRequest = JStr (js ''Grand Hotel invoice 42'')"
    by (simp add: inputTextOf_def sampleRequest_def)
  show ?thesis
    unfolding extractHandler_def Let_def i p
    by (simp add: sampleEnv_def sampleRequest_def logEvalRun_def strictInsert_def js_def
        completedHotel_def)
qed

text \<open>
  C2, amended. The request passes the input guard and the pipeline succeeds with
  \<open>data\<close>. If the insertion of the success row returns, the response is
  \<open>{ok: true, data}\<close>. If it throws \<open>e\<close>, the \<open>catch\<close> block inserts a failure row
  for \<open>e\<close>: when that returns, the response is status 500 with the message of \<open>e\<close>; when
  that throws too, the handler sends no response. The same holds for the file endpoint
  once the upload is an image and OCR has returned.
\<close>

theorem recorder_failure_is_reported:
  "(truthy (Some (inputTextOf req)) \<and> pipeline env (inputTextOf req) = Inr data \<longrightarrow>
      (\<exists>okRow errRow.
         success okRow \<and> json_output okRow = Some data
         \<and> (\<forall>e. \<not> success (errRow e) \<and> json_output (errRow e) = None
                  \<and> parse_error (errRow e) = Some e)
         \<and> extractHandler env req db =
             (case insertRun env okRow db of
                Inr db' \<Rightarrow> Responded (okResponse data) db'
              | Inl e \<Rightarrow>
                  (case insertRun env (errRow e) db of
                     Inr db' \<Rightarrow> Responded (errorResponse 500 (MessageOf e)) db'
                   | Inl e' \<Rightarrow> Unhandled e' db))))
   \<and> (prefix (js ''image/'') (mimetype f) \<and> extractTextFromImage env (path f) = Inr ocrText
        \<and> pipeline env (JStr ocrText) = Inr data \<longrightarrow>
      (\<exists>okRow errRow.
         success okRow \<and> json_output okRow = Some data
         \<and> (\<forall>e. \<not> success (errRow e) \<and> json_output (errRow e) = None
                  \<and> parse_error (errRow e) = Some e)
         \<and> extractFileHandler env (Some f) db =
             (case insertRun env okRow db of
                Inr db' \<Rightarrow> Responded (okResponse data) db'
              | Inl e \<Rightarrow>
                  (case insertRun env (errRow e) db of
                     Inr db' \<Rightarrow> Responded (errorResponse 500 (MessageOf e)) db'
                   | Inl e' \<Rightarrow> Unhandled e' db))))"
proof (intro conjI impI)
  assume h: "truthy (Some (inputTextOf req)) \<and> pipeline env (inputTextOf req) = Inr data"
  define row where "row =
    \<lparr>source_file = (case body_source_file req of None \<Rightarrow> JNull | Some v \<Rightarrow> v),
     input_type = js ''text'',
     input_chars = (case inputTextOf req of JStr s \<Rightarrow> length s | _ \<Rightarrow> 0),
     ocr_used = False, success = False, docType_pred = JNull,
     json_output = None, parse_error = None\<rparr>"
  let ?ok = "row\<lparr>success := True,
                  docType_pred := (case typeTag data of None \<Rightarrow> JNull | Some v \<Rightarrow> v),
                  json_output := Some data\<rparr>"
  let ?err = "\<lambda>e. row\<lparr>parse_error := Some e\<rparr>"
  have "extractHandler env req db =
          (case insertRun env ?ok db of
             Inr db' \<Rightarrow> Responded (okResponse data) db'
           | Inl e \<Rightarrow>
               (case insertRun env (?err e) db of
                  Inr db' \<Rightarrow> Responded (errorResponse 500 (MessageOf e)) db'
                | Inl e' \<Rightarrow> Unhandled e' db))"
    using h unfolding extractHandler_def Let_def logEvalRun_def row_def
    by (simp split: sum.splits)
  moreover have "success ?ok \<and> json_output ?ok = Some data" by simp
  moreover have "\<forall>e. \<not> success (?err e) \<and> json_output (?err e) = None \<and> parse_error (?err e) = Some e"
    by (simp add: row_def)
  ultimately show "\<exists>okRow errRow.
         success okRow \<and> json_output okRow = Some data
         \<and> (\<forall>e. \<not> success (errRow e) \<and> json_output (errRow e) = None
                  \<and> parse_error (errRow e) = Some e)
         \<and> extractHandler env req db =
             (case insertRun env okRow db of
                Inr db' \<Rightarrow> Responded (okResponse data) db'
              | Inl e \<Rightarrow>
                  (case insertRun env (errRow e) db of
                     Inr db' \<Rightarrow> Responded (errorResponse 500 (MessageOf e)) db'
                   | Inl e' \<Rightarrow> Unhandled e' db))"
    by - (rule exI [of _ ?ok], rule exI [of _ ?err], blast)
next
  assume h: "prefix (js ''image/'') (mimetype f) \<and> extractTextFromImage env (path f) = Inr ocrText
        \<and> pipeline env (JStr ocrText) = Inr data"
  define row where "row =
    \<lparr>source_file = JStr (originalname f), input_type = js ''image'', input_chars = 0,
     ocr_used = True, success = False, docType_pred = JNull,
     json_output = None, parse_error = None\<rparr>"
  let ?ok = "row\<lparr>input_chars := length ocrText, success := True,
                  docType_pred := (case typeTag data of None \<Rightarrow> JNull | Some v \<Rightarrow> v),
                  json_output := Some data\<rparr>"
  let ?err = "\<lambda>e. row\<lparr>parse_error := Some e\<rparr>"
  have "extractFileHandler env (Some f) db =
          (case insertRun env ?ok db of
             Inr db' \<Rightarrow> Responded (okResponse data) db'
           | Inl e \<Rightarrow>
               (case insertRun env (?err e) db of
                  Inr db' \<Rightarrow> Responded (errorResponse 500 (MessageOf e)) db'
                | Inl e' \<Rightarrow> Unhandled e' db))"
    using h unfolding extractFileHandler_def Let_def logEvalRun_def row_def
    by (simp split: sum.splits)
  moreover have "success ?ok \<and> json_output ?ok = Some data" by simp
  moreover have "\<forall>e. \<not> success (?err e) \<and> json_output (?err e) = None \<and> parse_error (?err e) = Some e"
    by (simp add: row_def)
  ultimately show "\<exists>okRow errRow.
         success okRow \<and> json_output okRow = Some data
         \<and> (\<forall>e. \<not> success (errRow e) \<and> json_output (errRow e) = None
                  \<and> parse_error (errRow e) = Some e)
         \<and> extractFileHandler env (Some f) db =
             (case insertRun env okRow db of
                Inr db' \<Rightarrow> Responded (okResponse data) db'
              | Inl e \<Rightarrow>
                  (case insertRun env (errRow e) db of
                     Inr db' \<Rightarrow> Responded (errorResponse 500 (MessageOf e)) db'
                   | Inl e' \<Rightarrow> Unhandled e' db))"
    by - (rule exI [of _ ?ok], rule exI [of _ ?err], blast)
qed

theorem recorder_failure_is_reported_witness:
  "(\<exists>row. extractHandler sampleEnv sampleRequest [] = Responded (okResponse completedHotel) [row])
   \<and> (\<exists>row. extractFileHandler (sampleEnv\<lparr>insertRun := strictInsert\<rparr>) (Some sampleUpload) [] =
         Responded (errorResponse 500 (MessageOf (RecorderError (js ''string or blob too big''))))
           [row])"
proof -
  have i: "inputTextOf sampleRequest = JStr (js ''Grand Hotel invoice 42'')"
    by (simp add: inputTextOf_def sampleRequest_def)
  have t: "truthy (Some (inputTextOf sampleRequest))"
    unfolding i by (simp add: js_def)
  have p1: "pipeline sampleEnv (inputTextOf sampleRequest) = Inr completedHotel"
    unfolding i using pipeline_sample [of appendRow] by (simp add: sampleEnv_def)
  have m: "prefix (js ''image/'') (mimetype sampleUpload)"
    by (simp add: sampleUpload_def js_def)
  have o: "extractTextFromImage (sampleEnv\<lparr>insertRun := strictInsert\<rparr>) (path sampleUpload)
           = Inr (js ''Grand Hotel invoice 42'')"
    by (simp add: sampleEnv_def)
  have p2: "pipeline (sampleEnv\<lparr>insertRun := strictInsert\<rparr>) (JStr (js ''Grand Hotel invoice 42''))
            = Inr completedHotel"
    by (rule pipeline_sample)
  have a: "insertRun sampleEnv = appendRow" by (simp add: sampleEnv_def)
  have s: "insertRun (sampleEnv\<lparr>insertRun := strictInsert\<rparr>) = strictInsert" by simp
  from recorder_failure_is_reported
         [of sampleRequest sampleEnv completedHotel "[]" sampleUpload ocrText0] t p1
  have "\<exists>row. extractHandler sampleEnv sampleRequest [] = Responded (okResponse completedHotel) [row]"
    unfolding a by (auto simp: appendRow_def)
  moreover
  from recorder_failure_is_reported
         [of req0 "sampleEnv\<lparr>insertRun := strictInsert\<rparr>" completedHotel "[]" sampleUpload
             "js ''Grand Hotel invoice 42''"] m o p2
  have "\<exists>row. extractFileHandler (sampleEnv\<lparr>insertRun := strictInsert\<rparr>) (Some sampleUpload) [] =
         Responded (errorResponse 500 (MessageOf (RecorderError (js ''string or blob too big''))))
           [row]"
    unfolding s by (auto simp: strictInsert_def)
  ultimately show ?thesis by blast
qed

section \<open>One record per attempt\<close>

text \<open>
  C3, as claimed: every request, an input error included, appends exactly one evaluation
  record before the response. A request without text is answered with status 400 from
  inside the \<open>try\<close> block, before any call of \<open>logEvalRun\<close>: the store is unchanged.
\<close>

theorem missing_text_is_not_recorded:
  "extractHandler sampleEnv emptyRequest [] =
     Responded (errorResponse 400 (Literal (js ''Missing text''))) []"
  by (simp add: extractHandler_def inputTextOf_def emptyRequest_def)

text \<open>
  C3, amended. A request stopped by an input guard (no text; no file; a file that is not
  an image) is answered with status 400 and nothing is recorded. For every other request,
  with a recorder that does not fail, the handler responds with status 200 or 500 and the
  store has grown by exactly one row, whose success flag tells which.
\<close>

theorem one_record_per_attempt:
  "(\<not> truthy (Some (inputTextOf req)) \<longrightarrow>
      extractHandler env req db = Responded (errorResponse 400 (Literal (js ''Missing text''))) db)
   \<and> (truthy (Some (inputTextOf req)) \<longrightarrow>
      (\<exists>r row. extractHandler (env\<lparr>insertRun := appendRow\<rparr>) req rows = Responded r (rows @ [row])
             \<and> (status r = 200 \<or> status r = 500) \<and> (success row \<longleftrightarrow> status r = 200)))
   \<and> extractFileHandler env None db = Responded (errorResponse 400 (Literal (js ''Missing file''))) db
   \<and> (\<not> prefix (js ''image/'') (mimetype f) \<longrightarrow>
      extractFileHandler env (Some f) db =
        Responded (errorResponse 400 (Literal (js ''Only images supported''))) db)
   \<and> (prefix (js ''image/'') (mimetype f) \<longrightarrow>
      (\<exists>r row. extractFileHandler (env\<lparr>insertRun := appendRow\<rparr>) (Some f) rows
                 = Responded r (rows @ [row])
             \<and> (status r = 200 \<or> status r = 500) \<and> (success row \<longleftrightarrow> status r = 200)))"
proof (intro conjI impI)
  assume "\<not> truthy (Some (inputTextOf req))"
  then show "extractHandler env req db = Responded (errorResponse 400 (Literal (js ''Missing text''))) db"
    by (simp add: extractHandler_def)
next
  assume "truthy (Some (inputTextOf req))"
  then show "\<exists>r row. extractHandler (env\<lparr>insertRun := appendRow\<rparr>) req rows = Responded r (rows @ [row])
             \<and> (status r = 200 \<or> status r = 500) \<and> (success row \<longleftrightarrow> status r = 200)"
    unfolding extractHandler_def Let_def logEvalRun_def
    by (cases "pipeline (env\<lparr>insertRun := appendRow\<rparr>) (inputTextOf req)")
       (simp_all add: appendRow_def okResponse_def errorResponse_def)
next
  show "extractFileHandler env None db = Responded (errorResponse 400 (Literal (js ''Missing file''))) db"
    by (simp add: extractFileHandler_def)
next
  assume "\<not> prefix (js ''image/'') (mimetype f)"
  then show "extractFileHandler env (Some f) db =
        Responded (errorResponse 400 (Literal (js ''Only images supported''))) db"
    by (simp add: extractFileHandler_def)
next
  assume m: "prefix (js ''image/'') (mimetype f)"
  show "\<exists>r row. extractFileHandler (env\<lparr>insertRun := appendRow\<rparr>) (Some f) rows
                 = Responded r (rows @ [row])
             \<and> (status r = 200 \<or> status r = 500) \<and> (success row \<longleftrightarrow> status r = 200)"
  proof (cases "extractTextFromImage env (path f)")
    case (Inl e)
    with m show ?thesis
      unfolding extractFileHandler_def Let_def logEvalRun_def
      by (simp add: appendRow_def errorResponse_def)
  next
    case (Inr ocrText)
    with m show ?thesis
      unfolding extractFileHandler_def Let_def logEvalRun_def
      by (cases "pipeline (env\<lparr>insertRun := appendRow\<rparr>) (JStr ocrText)")
         (simp_all add: appendRow_def okResponse_def errorResponse_def)
  qed
qed

theorem one_record_per_attempt_witness:
  "(\<exists>r row. extractHandler sampleEnv sampleRequest [] = Responded r [row] \<and> status r = 200
            \<and> success row)
   \<and> (\<exists>r row. extractFileHandler sampleEnv (Some sampleUpload) [] = Responded r [row])
   \<and> extractHandler sampleEnv emptyRequest [] =
       Responded (errorResponse 400 (Literal (js ''Missing text''))) []
   \<and> extractFileHandler sampleEnv (Some (sampleUpload\<lparr>mimetype := js ''text/plain''\<rparr>)) [] =
       Responded (errorResponse 400 (Literal (js ''Only images supported''))) []"
proof -
  have e: "sampleEnv\<lparr>insertRun := appendRow\<rparr> = sampleEnv"
    by (simp add: sampleEnv_def)
  have t: "truthy (Some (inputTextOf sampleRequest))"
    by (simp add: inputTextOf_def sampleRequest_def js_def)
  have m: "prefix (js ''image/'') (mimetype sampleUpload)"
    by (simp add: sampleUpload_def js_def)
  have n: "\<not> truthy (Some (inputTextOf emptyRequest))"
    by (simp add: inputTextOf_def emptyRequest_def)
  have x: "\<not> prefix (js ''image/'') (mimetype (sampleUpload\<lparr>mimetype := js ''text/plain''\<rparr>))"
    by (simp add: js_def)
  have p: "pipeline sampleEnv (inputTextOf sampleRequest) = Inr completedHotel"
    using pipeline_sample [of appendRow] unfolding e
    by (simp add: inputTextOf_def sampleRequest_def)
  have ok: "extractHandler sampleEnv sampleRequest [] \<noteq> Responded r [row] \<or> status r = 200" for r row
    unfolding extractHandler_def Let_def logEvalRun_def p
    using t by (auto simp: sampleEnv_def appendRow_def okResponse_def)
  from one_record_per_attempt [of sampleRequest sampleEnv "[]" "[]" sampleUpload] t m
  have "\<exists>r row. extractHandler sampleEnv sampleRequest [] = Responded r [row] \<and> status r = 200
            \<and> success row"
    unfolding e using ok by auto
  moreover
  from one_record_per_attempt [of sampleRequest sampleEnv "[]" "[]" sampleUpload] m
  have "\<exists>r row. extractFileHandler sampleEnv (Some sampleUpload) [] = Responded r [row]"
    unfolding e by auto
  moreover
  from one_record_per_attempt [of emptyRequest sampleEnv "[]" "[]"
         "sampleUpload\<lparr>mimetype := js ''text/plain''\<rparr>"] n x
  have "extractHandler sampleEnv emptyRequest [] =
       Responded (errorResponse 400 (Literal (js ''Missing text''))) []
   \<and> extractFileHandler sampleEnv (Some (sampleUpload\<lparr>mimetype := js ''text/plain''\<rparr>)) [] =
       Responded (errorResponse 400 (Literal (js ''Only images supported''))) []"
    by blast
  ultimately show ?thesis by blast
qed

section \<open>The shape of a response\<close>

text \<open>
  C4, as claimed: every response carries the boolean flag \<open>ok\<close>. A failure response is
  \<open>{error: message}\<close> and has no such field.
\<close>

theorem failure_response_has_no_ok_flag:
  "extractHandler sampleEnv emptyRequest [] =
     Responded \<lparr>status = 400, body = [(js ''error'', Message (Literal (js ''Missing text'')))]\<rparr> []
   \<and> map_of [(js ''error'', Message (Literal (js ''Missing text'')))] (js ''ok'') = None"
  by (simp add: extractHandler_def inputTextOf_def emptyRequest_def errorResponse_def js_def)

text \<open>
  C4, amended. A response of either endpoint is one of two: status 200 with the body
  \<open>{ok: true, data}\<close>, where \<open>data\<close> has passed validation; or status 400 or 500 with
  the body \<open>{error: message}\<close>, one message and no \<open>ok\<close> field.
\<close>

theorem response_shapes:
  "(extractHandler env req db = Responded r db' \<or> extractFileHandler env file db = Responded r db')
   \<longrightarrow> (status r = 200
          \<and> (\<exists>data. body r = [(js ''ok'', Flag True), (js ''data'', Payload data)]
                   \<and> assertValidOutput data = Inr ()))
       \<or> ((status r = 400 \<or> status r = 500)
          \<and> (\<exists>m. body r = [(js ''error'', Message m)]))"
proof (intro impI, elim disjE)
  assume h: "extractHandler env req db = Responded r db'"
  show "(status r = 200
          \<and> (\<exists>data. body r = [(js ''ok'', Flag True), (js ''data'', Payload data)]
                   \<and> assertValidOutput data = Inr ()))
       \<or> ((status r = 400 \<or> status r = 500)
          \<and> (\<exists>m. body r = [(js ''error'', Message m)]))"
  proof (cases "pipeline env (inputTextOf req)")
    case (Inl e)
    with h show ?thesis
      unfolding extractHandler_def Let_def
      by (auto simp: errorResponse_def split: if_splits sum.splits)
  next
    case (Inr data)
    from pipeline_valid [OF this] Inr h show ?thesis
      unfolding extractHandler_def Let_def
      by (auto simp: errorResponse_def okResponse_def split: if_splits sum.splits)
  qed
next
  assume h: "extractFileHandler env file db = Responded r db'"
  have v: "assertValidOutput data = Inr ()" if "pipeline env t = Inr data" for t data
    using that by (rule pipeline_valid)
  from h show "(status r = 200
          \<and> (\<exists>data. body r = [(js ''ok'', Flag True), (js ''data'', Payload data)]
                   \<and> assertValidOutput data = Inr ()))
       \<or> ((status r = 400 \<or> status r = 500)
          \<and> (\<exists>m. body r = [(js ''error'', Message m)]))"
    unfolding extractFileHandler_def Let_def
    by (auto simp: errorResponse_def okResponse_def dest: v
             split: if_splits sum.splits option.splits)
qed

theorem response_shapes_witness:
  "extractHandler sampleEnv sampleRequest [] =
     Responded (okResponse completedHotel)
       [\<lparr>source_file = JNull, input_type = js ''text'', input_chars = 22, ocr_used = False,
         success = True, docType_pred = JStr (js ''hotel''),
         json_output = Some completedHotel, parse_error = None\<rparr>]
   \<and> assertValidOutput completedHotel = Inr ()
   \<and> extractHandler sampleEnv emptyRequest [] =
       Responded (errorResponse 400 (Literal (js ''Missing text''))) []"
proof -
  have i: "inputTextOf sampleRequest = JStr (js ''Grand Hotel invoice 42'')"
    by (simp add: inputTextOf_def sampleRequest_def)
  have p: "pipeline sampleEnv (JStr (js ''Grand Hotel invoice 42'')) = Inr completedHotel"
    using pipeline_sample [of appendRow] by (simp add: sampleEnv_def)
  have h1: "extractHandler sampleEnv sampleRequest [] =
     Responded (okResponse completedHotel)
       [\<lparr>source_file = JNull, input_type = js ''text'', input_chars = 22, ocr_used = False,
         success = True, docType_pred = JStr (js ''hotel''),
         json_output = Some completedHotel, parse_error = None\<rparr>]"
    unfolding extractHandler_def Let_def i p
    by (simp add: sampleEnv_def sampleRequest_def logEvalRun_def appendRow_def js_def
        completedHotel_def getProp_def)
  have h2: "extractHandler sampleEnv emptyRequest [] =
     Responded (errorResponse 400 (Literal (js ''Missing text''))) []"
    by (simp add: extractHandler_def inputTextOf_def emptyRequest_def)
  have ne: "js ''ok'' \<noteq> js ''error''" by (simp add: js_def)
  from response_shapes [of sampleEnv sampleRequest "[]" "okResponse completedHotel" _ None] h1 ne
  have "assertValidOutput completedHotel = Inr ()"
    by (auto simp: okResponse_def)
  with h1 h2 show ?thesis by blast
qed

section \<open>The brace scan of the decoder\<close>

lemma slice_Cons:
  "i < length s \<Longrightarrow> i \<le> k \<Longrightarrow> slice s i (Suc k) = s ! i # slice s (Suc i) (Suc k)"
  by (simp add: slice_def Suc_diff_le Cons_nth_drop_Suc [symmetric])

lemma slice_empty: "slice s i i = []"
  by (simp add: slice_def)

lemma braceDepth_Cons: "braceDepth (c # cs) = braceStep c + braceDepth cs"
  by (simp add: braceDepth_def)

lemma braceDepth_Nil: "braceDepth [] = 0"
  by (simp add: braceDepth_def)

lemma scanBraces_Some_iff:
  "scanBraces s d i = Some e \<longleftrightarrow>
     i \<le> e \<and> e < length s \<and> d + braceDepth (slice s i (Suc e)) = 0
     \<and> (\<forall>k. i \<le> k \<and> k < e \<longrightarrow> d + braceDepth (slice s i (Suc k)) \<noteq> 0)"
proof (induction s d i rule: scanBraces.induct)
  case (1 s d i)
  show ?case
  proof (cases "i < length s")
    case False
    then have "scanBraces s d i = None"
      by (subst scanBraces.simps) simp
    with False show ?thesis by auto
  next
    case True
    define d' where "d' = d + braceStep (s ! i)"
    have d'_alt: "d' = (if s ! i = 123 then d + 1 else if s ! i = 125 then d - 1 else d)"
      by (simp add: d'_def braceStep_def)
    have dep: "d + braceDepth (slice s i (Suc k)) = d' + braceDepth (slice s (Suc i) (Suc k))"
      if "i \<le> k" for k
      using slice_Cons [OF True that] by (simp add: braceDepth_Cons d'_def)
    have dep_i: "d + braceDepth (slice s i (Suc i)) = d'"
      using dep [of i] by (simp add: slice_empty braceDepth_Nil)
    show ?thesis
    proof (cases "d' = 0")
      case z: True
      have "scanBraces s d i = Some i"
        using True z by (subst scanBraces.simps) (simp add: d'_alt Let_def)
      moreover have "e = i" if "i \<le> e"
        "\<forall>k. i \<le> k \<and> k < e \<longrightarrow> d + braceDepth (slice s i (Suc k)) \<noteq> 0"
      proof (rule ccontr)
        assume "e \<noteq> i"
        with that have "d + braceDepth (slice s i (Suc i)) \<noteq> 0" by auto
        with dep_i z show False by simp
      qed
      ultimately show ?thesis using True dep_i z by auto
    next
      case nz: False
      have "scanBraces s d i = scanBraces s d' (Suc i)"
        using True nz by (subst scanBraces.simps) (simp add: d'_alt Let_def)
      also have "\<dots> = Some e \<longleftrightarrow>
         Suc i \<le> e \<and> e < length s \<and> d' + braceDepth (slice s (Suc i) (Suc e)) = 0
         \<and> (\<forall>k. Suc i \<le> k \<and> k < e \<longrightarrow> d' + braceDepth (slice s (Suc i) (Suc k)) \<noteq> 0)"
        using "1.IH" [OF True refl d'_alt] nz by simp
      also have "\<dots> \<longleftrightarrow> i \<le> e \<and> e < length s \<and> d + braceDepth (slice s i (Suc e)) = 0
         \<and> (\<forall>k. i \<le> k \<and> k < e \<longrightarrow> d + braceDepth (slice s i (Suc k)) \<noteq> 0)"
        (is "?L \<longleftrightarrow> ?R")
      proof
        assume l: ?L
        then have ie: "i \<le> e" by arith
        have "d + braceDepth (slice s i (Suc k)) \<noteq> 0" if "i \<le> k" "k < e" for k
        proof (cases "k = i")
          case True
          with dep_i nz show ?thesis by simp
        next
          case False
          with that have "Suc i \<le> k" by arith
          with l that show ?thesis using dep [of k] by auto
        qed
        with l ie show ?R using dep [of e] by auto
      next
        assume r: ?R
        have "e \<noteq> i" using r dep_i nz by auto
        with r have ie: "Suc i \<le> e" by arith
        have "d' + braceDepth (slice s (Suc i) (Suc k)) \<noteq> 0" if "Suc i \<le> k" "k < e" for k
          using r that dep [of k] by auto
        with r ie show ?L using dep [of e] by auto
      qed
      finally show ?thesis .
    qed
  qed
qed


lemma occursAt_single: "occursAt s [c] k \<longleftrightarrow> k < length s \<and> s ! k = c"
proof (cases "k < length s")
  case True
  then have "drop k s = s ! k # drop (Suc k) s"
    by (simp add: Cons_nth_drop_Suc)
  then have "take 1 (drop k s) = [s ! k]" by simp
  with True show ?thesis by (auto simp: occursAt_def)
next
  case False
  then show ?thesis by (simp add: occursAt_def)
qed

lemma slice_of_append:
  "slice (pre @ j @ post) (length pre) (length pre + n) = take n j" if "n \<le> length j"
  using that by (simp add: slice_def)

lemma extract_Some_iff:
  "extractFirstJSONObject raw = Some j \<longleftrightarrow>
     (\<exists>pre post. firstBalancedObject (stripCodeFences raw) pre j post)"
proof
  define s where "s = stripCodeFences raw"
  assume "extractFirstJSONObject raw = Some j"
  then obtain start e where start: "indexOf s [123] 0 = Some start"
    and e: "scanBraces s 0 start = Some e" and j: "j = slice s start (Suc e)"
    unfolding extractFirstJSONObject_def Let_def s_def
    by (auto split: option.splits)
  from start have s1: "start < length s" "s ! start = 123"
    and s2: "\<forall>k<start. s ! k \<noteq> 123"
    unfolding indexOf_Some_iff occursAt_single by auto
  from e have e1: "start \<le> e" "e < length s" "braceDepth (slice s start (Suc e)) = 0"
    and e2: "\<forall>k. start \<le> k \<and> k < e \<longrightarrow> braceDepth (slice s start (Suc k)) \<noteq> 0"
    unfolding scanBraces_Some_iff by auto
  have len: "length j = Suc e - start"
    using e1 by (simp add: j slice_def)
  have "take (Suc e) s = take start s @ j"
    using e1 take_add [of start "Suc e - start" s] by (simp add: j slice_def)
  then have dec: "s = take start s @ j @ drop (Suc e) s"
    by (metis append_assoc append_take_drop_id)
  have pre: "123 \<notin> set (take start s)"
    using s2 s1 by (auto simp: in_set_conv_nth)
  have ne: "j \<noteq> []" using len e1 by auto
  have hd: "hd j = 123"
    using s1 e1 by (simp add: j slice_def hd_drop_conv_nth)
  have inner: "braceDepth (take n j) \<noteq> 0" if "n \<in> {1 ..< length j}" for n
  proof -
    from that len have n: "0 < n" "n < Suc e - start" by auto
    then have "take n j = slice s start (Suc (start + n - 1))"
      by (simp add: j slice_def min_def)
    moreover have "start \<le> start + n - 1" "start + n - 1 < e" using n by arith+
    ultimately show ?thesis using e2 by metis
  qed
  show "\<exists>pre post. firstBalancedObject (stripCodeFences raw) pre j post"
    unfolding firstBalancedObject_def s_def [symmetric]
    using dec pre ne hd e1(3) inner j by blast
next
  define s where "s = stripCodeFences raw"
  assume "\<exists>pre post. firstBalancedObject (stripCodeFences raw) pre j post"
  then obtain pre post where dec: "s = pre @ j @ post" and pre: "123 \<notin> set pre"
    and ne: "j \<noteq> []" and hd: "hd j = 123" and bal: "braceDepth j = 0"
    and inner: "\<forall>n \<in> {1 ..< length j}. braceDepth (take n j) \<noteq> 0"
    unfolding firstBalancedObject_def s_def [symmetric] by blast
  have at: "s ! length pre = 123"
    using ne hd by (simp add: dec nth_append hd_conv_nth)
  have before: "s ! k \<noteq> 123" if "k < length pre" for k
  proof -
    have "pre ! k \<in> set pre" using that by simp
    with pre have "pre ! k \<noteq> 123" by metis
    with that show ?thesis by (simp add: dec nth_append)
  qed
  have start: "indexOf s [123] 0 = Some (length pre)"
    unfolding indexOf_Some_iff occursAt_single
    using at before ne by (auto simp: dec)
  have sl: "slice s (length pre) (length pre + n) = take n j" if "n \<le> length j" for n
    unfolding dec using that by (rule slice_of_append)
  have lj: "0 < length j" using ne by simp
  have "scanBraces s 0 (length pre) = Some (length pre + length j - 1)"
    unfolding scanBraces_Some_iff
  proof (intro conjI allI impI)
    show "length pre \<le> length pre + length j - 1" using lj by arith
    have "length s = length pre + length j + length post" by (simp add: dec)
    with lj show "length pre + length j - 1 < length s" by arith
    have "slice s (length pre) (Suc (length pre + length j - 1)) = j"
      using sl [of "length j"] lj by simp
    then show "0 + braceDepth (slice s (length pre) (Suc (length pre + length j - 1))) = 0"
      using bal by simp
  next
    fix k assume k: "length pre \<le> k \<and> k < length pre + length j - 1"
    then have "Suc k - length pre \<le> length j" "length pre + (Suc k - length pre) = Suc k"
      by arith+
    then have "slice s (length pre) (Suc k) = take (Suc k - length pre) j"
      using sl [of "Suc k - length pre"] by simp
    moreover have "Suc k - length pre \<in> {1 ..< length j}" using k by auto
    ultimately show "0 + braceDepth (slice s (length pre) (Suc k)) \<noteq> 0"
      using inner by simp
  qed
  moreover have "slice s (length pre) (length pre + length j - 1 + 1) = j"
    using sl [of "length j"] lj by simp
  ultimately show "extractFirstJSONObject raw = Some j"
    unfolding extractFirstJSONObject_def Let_def s_def [symmetric]
    by (simp add: start)
qed

section \<open>Fenced replies\<close>

lemma upperAscii_eq: "upperAscii = foldCase"
  by (simp add: fun_eq_iff upperAscii_def foldCase_def isAsciiLower_def)

lemma foldCase_96: "foldCase c = 96 \<longleftrightarrow> c = 96"
  by (auto simp: foldCase_def isAsciiLower_def)

lemma fenceJson_folded:
  "length fenceJson = 7" "map foldCase fenceJson = [96, 96, 96, 74, 83, 79, 78]"
  "map foldCase (js ''json'') = [74, 83, 79, 78]"
  by (simp_all add: fenceJson_def js_def foldCase_def isAsciiLower_def)

lemma prefixCI_fenceJson:
  "prefixCI fenceJson s \<longleftrightarrow> 7 \<le> length s \<and> map foldCase (take 7 s) = [96, 96, 96, 74, 83, 79, 78]"
  by (simp add: prefixCI_def fenceJson_folded)

lemma prefixCI_fence_hd: "prefixCI fenceJson (c # cs) \<Longrightarrow> c = 96"
  by (auto simp: prefixCI_fenceJson foldCase_96)

lemma removeJsonFences_no_tick:
  "96 \<notin> set p \<Longrightarrow> removeJsonFences (p @ s) = p @ removeJsonFences s"
proof (induction p)
  case Nil
  then show ?case by simp
next
  case (Cons c p)
  then have "\<not> prefixCI fenceJson (c # p @ s)"
    using prefixCI_fence_hd [of c "p @ s"] by auto
  with Cons show ?case by simp
qed

lemma removeJsonFences_id: "96 \<notin> set p \<Longrightarrow> removeJsonFences p = p"
  using removeJsonFences_no_tick [of p "[]"] by simp

lemma removeJsonFences_opening:
  assumes "prefixCI fenceJson f" "length f = 7" "\<forall>c \<in> set ws. isSpace c"
    "rest \<noteq> []" "\<not> isSpace (hd rest)"
  shows "removeJsonFences (f @ ws @ rest) = removeJsonFences rest"
proof -
  from assms(2) obtain c cs where f: "f = c # cs"
    by (cases f) auto
  have p: "prefixCI fenceJson (f @ ws @ rest)"
    using assms(1,2) by (simp add: prefixCI_fenceJson)
  have "dropWhile isSpace (ws @ rest) = rest"
    using assms(3,4,5) by (cases rest) (simp_all add: dropWhile_append2)
  then have d: "dropWhile isSpace (drop (length fenceJson) (f @ ws @ rest)) = rest"
    using assms(2) by (simp add: fenceJson_folded)
  have "removeJsonFences (c # cs @ ws @ rest) =
          removeJsonFences (dropWhile isSpace (drop (length fenceJson) (c # cs @ ws @ rest)))"
    using p unfolding f by (simp only: removeJsonFences.simps append_Cons if_True)
  with d show ?thesis unfolding f by (simp only: append_Cons)
qed

lemma removeJsonFences_closing:
  assumes "96 \<notin> set p" "\<not> prefixCI (js ''json'') p"
  shows "removeJsonFences ([96, 96, 96] @ p) = [96, 96, 96] @ p"
proof -
  have j: "length (js ''json'') = 4" by (simp add: js_def)
  have a: "\<not> prefixCI fenceJson (96 # 96 # 96 # p)"
    using assms(2) by (auto simp: prefixCI_fenceJson prefixCI_def fenceJson_folded j)
  have b: "\<not> prefixCI fenceJson (96 # 96 # p)"
    using assms(1) by (cases p) (auto simp: prefixCI_fenceJson foldCase_96)
  have c: "\<not> prefixCI fenceJson (96 # p)"
    using assms(1) by (cases p) (auto simp: prefixCI_fenceJson foldCase_96)
  show ?thesis
    using a b c removeJsonFences_id [OF assms(1)] by simp
qed

lemma removeFences_Cons_other: "c \<noteq> 96 \<Longrightarrow> removeFences (c # xs) = c # removeFences xs"
proof (cases xs)
  case Nil
  then show ?thesis by simp
next
  case (Cons y ys)
  assume "c \<noteq> 96"
  with Cons show ?thesis by (cases ys) simp_all
qed

lemma removeFences_no_tick: "96 \<notin> set p \<Longrightarrow> removeFences (p @ s) = p @ removeFences s"
  by (induction p) (simp_all add: removeFences_Cons_other)

lemma removeFences_id: "96 \<notin> set p \<Longrightarrow> removeFences p = p"
  using removeFences_no_tick [of p "[]"] by simp


lemma dropWhile_mid:
  "x \<noteq> [] \<Longrightarrow> \<not> P (hd x) \<Longrightarrow> dropWhile P (p @ x @ q) = dropWhile P p @ x @ q"
proof (induction p)
  case Nil
  then show ?case by (cases x) simp_all
next
  case (Cons c p)
  then show ?case by simp
qed

lemma trim_mid:
  assumes "x \<noteq> []" "\<not> isSpace (hd x)" "\<not> isSpace (last x)"
  shows "trim (p @ x @ q) = dropWhile isSpace p @ x @ rev (dropWhile isSpace (rev q))"
proof -
  have "dropWhile isSpace (p @ x @ q) = dropWhile isSpace p @ x @ q"
    using assms(1,2) by (rule dropWhile_mid)
  then have "rev (dropWhile isSpace (p @ x @ q)) = rev q @ rev x @ rev (dropWhile isSpace p)"
    by simp
  moreover have "dropWhile isSpace (rev q @ rev x @ rev (dropWhile isSpace p))
                 = dropWhile isSpace (rev q) @ rev x @ rev (dropWhile isSpace p)"
    using assms(1,3) by (intro dropWhile_mid) (simp_all add: hd_rev)
  ultimately show ?thesis by (simp add: trim_def)
qed

lemma braceDepth_append: "braceDepth (xs @ ys) = braceDepth xs + braceDepth ys"
  by (simp add: braceDepth_def)

lemma balanced_last:
  assumes "obj \<noteq> []" "hd obj = 123" "braceDepth obj = 0"
    "\<forall>n \<in> {1 ..< length obj}. braceDepth (take n obj) \<noteq> 0"
  shows "last obj = 123 \<or> last obj = 125"
proof (rule ccontr)
  assume n: "\<not> (last obj = 123 \<or> last obj = 125)"
  then have z: "braceStep (last obj) = 0" by (simp add: braceStep_def)
  have "obj = butlast obj @ [last obj]" using assms(1) by simp
  then have "braceDepth obj = braceDepth (butlast obj) + braceStep (last obj)"
    by (metis braceDepth_append braceDepth_Cons braceDepth_Nil add.right_neutral)
  with z assms(3) have b: "braceDepth (butlast obj) = 0" by simp
  have "butlast obj \<noteq> []"
  proof
    assume "butlast obj = []"
    with \<open>obj = butlast obj @ [last obj]\<close> have "obj = [last obj]" by simp
    with assms(2) have "last obj = 123" by (metis list.sel(1))
    with n show False by blast
  qed
  then have "1 \<le> length (butlast obj)" by (cases "butlast obj") simp_all
  then have "length obj - 1 \<in> {1 ..< length obj}"
    by simp
  with assms(4) have "braceDepth (take (length obj - 1) obj) \<noteq> 0" by blast
  with b show False by (simp add: butlast_conv_take)
qed

lemma strip_fenced:
  assumes "prefixCI fenceJson f" "length f = 7" "\<forall>c \<in> set ws. isSpace c"
    and "96 \<notin> set p1" "96 \<notin> set inner" "96 \<notin> set p2" "\<not> prefixCI (js ''json'') p2"
    and "inner \<noteq> []" "\<not> isSpace (hd inner)"
  shows "stripCodeFences (p1 @ f @ ws @ inner @ [96, 96, 96] @ p2) = trim (p1 @ inner @ p2)"
proof -
  have f: "f \<noteq> []" using assms(2) by auto
  have r: "inner @ [96, 96, 96] @ p2 \<noteq> []" "\<not> isSpace (hd (inner @ [96, 96, 96] @ p2))"
    using assms(8,9) by simp_all
  have "removeJsonFences (p1 @ f @ ws @ inner @ [96, 96, 96] @ p2)
        = p1 @ removeJsonFences (f @ ws @ (inner @ [96, 96, 96] @ p2))"
    using assms(4) by (rule removeJsonFences_no_tick)
  also have "\<dots> = p1 @ removeJsonFences (inner @ [96, 96, 96] @ p2)"
    using removeJsonFences_opening [OF assms(1,2,3) r] by simp
  also have "\<dots> = p1 @ inner @ removeJsonFences ([96, 96, 96] @ p2)"
    using removeJsonFences_no_tick [OF assms(5)] by simp
  also have "\<dots> = p1 @ inner @ [96, 96, 96] @ p2"
    using removeJsonFences_closing [OF assms(6,7)] by simp
  finally have 1: "removeJsonFences (p1 @ f @ ws @ inner @ [96, 96, 96] @ p2)
                   = (p1 @ inner) @ [96, 96, 96] @ p2"
    by simp
  have "96 \<notin> set (p1 @ inner)" using assms(4,5) by simp
  then have "removeFences ((p1 @ inner) @ [96, 96, 96] @ p2) = (p1 @ inner) @ removeFences ([96, 96, 96] @ p2)"
    by (rule removeFences_no_tick)
  also have "\<dots> = (p1 @ inner) @ p2"
    using removeFences_id [OF assms(6)] by simp
  finally have 2: "removeFences ((p1 @ inner) @ [96, 96, 96] @ p2) = p1 @ inner @ p2"
    by simp
  show ?thesis
    unfolding stripCodeFences_def 1 2 using f by simp
qed

lemma fenced_firstBalancedObject:
  assumes "prefixCI fenceJson f" "length f = 7" "\<forall>c \<in> set ws. isSpace c"
    and "96 \<notin> set p1" "96 \<notin> set obj" "96 \<notin> set mid" "96 \<notin> set p2"
    and "\<not> prefixCI (js ''json'') p2" "123 \<notin> set p1"
    and "obj \<noteq> []" "hd obj = 123" "braceDepth obj = 0"
    and "\<forall>n \<in> {1 ..< length obj}. braceDepth (take n obj) \<noteq> 0"
  shows "firstBalancedObject (stripCodeFences (p1 @ f @ ws @ obj @ mid @ [96, 96, 96] @ p2))
           (dropWhile isSpace p1) obj (rev (dropWhile isSpace (rev (mid @ p2))))"
proof -
  have sp: "\<not> isSpace 123" "\<not> isSpace 125" by (simp_all add: isSpace_def)
  have h: "\<not> isSpace (hd obj)" using assms(11) sp by simp
  have l: "\<not> isSpace (last obj)"
    using balanced_last [OF assms(10,11,12,13)] sp by auto
  have "stripCodeFences (p1 @ f @ ws @ (obj @ mid) @ [96, 96, 96] @ p2) = trim (p1 @ (obj @ mid) @ p2)"
    using assms(1,2,3,4) _ assms(7,8)
  proof (rule strip_fenced)
    show "96 \<notin> set (obj @ mid)" using assms(5,6) by simp
    show "obj @ mid \<noteq> []" using assms(10) by simp
    show "\<not> isSpace (hd (obj @ mid))" using assms(10) h by simp
  qed
  also have "\<dots> = trim (p1 @ obj @ (mid @ p2))" by simp
  also have "\<dots> = dropWhile isSpace p1 @ obj @ rev (dropWhile isSpace (rev (mid @ p2)))"
    using assms(10) h l by (rule trim_mid)
  finally have s: "stripCodeFences (p1 @ f @ ws @ obj @ mid @ [96, 96, 96] @ p2)
                   = dropWhile isSpace p1 @ obj @ rev (dropWhile isSpace (rev (mid @ p2)))"
    by simp
  have "123 \<notin> set (dropWhile isSpace p1)"
    using assms(9) set_dropWhileD by fastforce
  then show ?thesis
    unfolding firstBalancedObject_def s using assms(10,11,12,13) by simp
qed

section \<open>Decoding\<close>

lemmas decode_eval_defs = stripCodeFences_def fencedReply_def hotelJson_def sampleParse_def
  truncatedReply_def
  fenceJson_def prefixCI_def foldCase_def isAsciiLower_def trim_def isSpace_def js_def
  firstBalancedObject_def braceDepth_def braceStep_def

lemma strip_fencedReply:
  "stripCodeFences fencedReply =
     (js ''Here is the result:'' @ [10]) @ hotelJson @ ([10, 10] @ js ''Thanks!'')"
  by (simp add: decode_eval_defs)

subsection \<open>What stripping leaves\<close>

lemma removeFences_ticks:
  "length (takeWhile (\<lambda>c. c = 96) (removeFences s)) = length (takeWhile (\<lambda>c. c = 96) s) mod 3"
proof (induction s rule: removeFences.induct)
  case (1 x y z cs)
  show ?case
  proof (cases "x = 96 \<and> y = 96 \<and> z = 96")
    case True
    with 1 show ?thesis by simp
  next
    case False
    have r: "removeFences (x # y # z # cs) = x # removeFences (y # z # cs)"
      by (simp only: removeFences.simps False if_False)
    show ?thesis
    proof (cases "x = 96")
      case x: False
      then show ?thesis unfolding r by simp
    next
      case x: True
      with False have le: "length (takeWhile (\<lambda>c. c = 96) (y # z # cs)) \<le> 1" by auto
      from 1(2) False
      have "length (takeWhile (\<lambda>c. c = 96) (removeFences (y # z # cs)))
            = length (takeWhile (\<lambda>c. c = 96) (y # z # cs)) mod 3"
        by blast
      with le x show ?thesis unfolding r by auto
    qed
  qed
qed simp_all

lemma removeFences_no_fence: "\<not> sublist [96, 96, 96] (removeFences s)"
proof (induction s rule: removeFences.induct)
  case (1 x y z cs)
  show ?case
  proof (cases "x = 96 \<and> y = 96 \<and> z = 96")
    case True
    with 1 show ?thesis by simp
  next
    case False
    have r: "removeFences (x # y # z # cs) = x # removeFences (y # z # cs)"
      by (simp only: removeFences.simps False if_False)
    from 1(2) False have ih: "\<not> sublist [96, 96, 96] (removeFences (y # z # cs))" by blast
    have "\<not> prefix [96, 96, 96] (x # removeFences (y # z # cs))"
    proof
      assume p: "prefix [96, 96, 96] (x # removeFences (y # z # cs))"
      then have x: "x = 96" and "prefix [96, 96] (removeFences (y # z # cs))" by simp_all
      then have "2 \<le> length (takeWhile (\<lambda>c. c = 96) (removeFences (y # z # cs)))"
        by (auto simp: prefix_def)
      then have "2 \<le> length (takeWhile (\<lambda>c. c = 96) (y # z # cs)) mod 3"
        by (simp only: removeFences_ticks)
      moreover from x False have "length (takeWhile (\<lambda>c. c = 96) (y # z # cs)) \<le> 1" by auto
      ultimately show False by auto
    qed
    with ih show ?thesis unfolding r by (simp only: sublist_Cons_right) blast
  qed
qed (simp_all add: sublist_Cons_right)

lemma trim_sublist: "sublist (trim xs) xs"
proof -
  let ?ys = "dropWhile isSpace xs"
  have "suffix (dropWhile isSpace (rev ?ys)) (rev ?ys)" by (rule suffix_dropWhile)
  then have "prefix (trim xs) ?ys" by (simp add: suffix_to_prefix trim_def)
  moreover have "suffix ?ys xs" by (rule suffix_dropWhile)
  ultimately show ?thesis
    by (meson prefix_imp_sublist suffix_imp_sublist sublist_order.order.trans)
qed

lemma stripCodeFences_no_fence: "\<not> sublist [96, 96, 96] (stripCodeFences raw)"
proof
  assume a: "sublist [96, 96, 96] (stripCodeFences raw)"
  then have "raw \<noteq> []" by (auto simp: stripCodeFences_def)
  with a have "sublist [96, 96, 96] (trim (removeFences (removeJsonFences raw)))"
    by (simp add: stripCodeFences_def)
  with trim_sublist have "sublist [96, 96, 96] (removeFences (removeJsonFences raw))"
    by (meson sublist_order.order.trans)
  with removeFences_no_fence show False by blast
qed

lemma trim_ends:
  "trim xs = [] \<or> (\<not> isSpace (hd (trim xs)) \<and> \<not> isSpace (last (trim xs)))"
proof (cases "trim xs = []")
  case True
  then show ?thesis by simp
next
  case False
  let ?ys = "dropWhile isSpace xs"
  let ?zs = "dropWhile isSpace (rev ?ys)"
  have t: "trim xs = rev ?zs" by (simp add: trim_def)
  with False have z: "?zs \<noteq> []" by simp
  then have "\<not> isSpace (hd ?zs)" by (rule hd_dropWhile)
  then have l: "\<not> isSpace (last (trim xs))" using z by (simp add: t last_rev)
  have y: "?ys \<noteq> []"
  proof
    assume e: "?ys = []"
    have "?zs = []" unfolding e by simp
    with z show False by blast
  qed
  then have hy: "\<not> isSpace (hd ?ys)" by (rule hd_dropWhile)
  have "suffix ?zs (rev ?ys)" by (rule suffix_dropWhile)
  then obtain q where "rev ?ys = q @ ?zs" by (auto simp: suffix_def)
  then have "last (rev ?ys) = last ?zs" using z by (metis last_appendR)
  then have "hd (trim xs) = hd ?ys" using y z by (simp add: t hd_rev last_rev)
  with hy l show ?thesis by simp
qed

lemma stripCodeFences_ends:
  "stripCodeFences raw = []
   \<or> (\<not> isSpace (hd (stripCodeFences raw)) \<and> \<not> isSpace (last (stripCodeFences raw)))"
  using trim_ends [of "removeFences (removeJsonFences raw)"] by (simp add: stripCodeFences_def)

lemma stripCodeFences_no_tick: "96 \<notin> set raw \<Longrightarrow> stripCodeFences raw = trim raw"
  by (simp add: stripCodeFences_def removeJsonFences_id removeFences_id trim_def)

lemma jsonFence_prefixCI:
  assumes "map upperAscii f = [96, 96, 96] @ js ''JSON''"
  shows "prefixCI fenceJson f" "length f = 7"
proof -
  from assms have "length (map upperAscii f) = 7" by (simp add: js_def)
  then show l: "length f = 7" by simp
  from assms have "map foldCase f = [96, 96, 96, 74, 83, 79, 78]"
    by (simp add: upperAscii_eq js_def)
  with l show "prefixCI fenceJson f" by (simp add: prefixCI_fenceJson)
qed

lemma no_json_prefixCI:
  assumes "\<not> prefix (js ''JSON'') (map upperAscii p2)"
  shows "\<not> prefixCI (js ''json'') p2"
proof
  assume c: "prefixCI (js ''json'') p2"
  have l: "length (js ''json'') = 4" by (simp add: js_def)
  from c have "map foldCase (take 4 p2) = [74, 83, 79, 78]"
    unfolding prefixCI_def l fenceJson_folded(3) by blast
  then have "take 4 (map upperAscii p2) = js ''JSON''"
    by (simp add: upperAscii_eq take_map js_def)
  then have "prefix (js ''JSON'') (map upperAscii p2)"
    by (metis take_is_prefix)
  with assms show False by blast
qed

lemma strip_fenced_object:
  assumes "map upperAscii f = [96, 96, 96] @ js ''JSON''" "\<forall>c \<in> set ws. isSpace c"
    and "96 \<notin> set p1" "96 \<notin> set obj" "96 \<notin> set mid" "96 \<notin> set p2"
    and "\<not> prefix (js ''JSON'') (map upperAscii p2)"
    and "obj \<noteq> []" "hd obj = 123"
  shows "stripCodeFences (p1 @ f @ ws @ obj @ mid @ [96, 96, 96] @ p2) = trim (p1 @ obj @ mid @ p2)"
proof -
  have "\<not> isSpace 123" by (simp add: isSpace_def)
  with assms(8,9) have h: "obj @ mid \<noteq> []" "\<not> isSpace (hd (obj @ mid))" by simp_all
  have t: "96 \<notin> set (obj @ mid)" using assms(4,5) by simp
  from strip_fenced [OF jsonFence_prefixCI [OF assms(1)] assms(2,3) t assms(6)
      no_json_prefixCI [OF assms(7)] h]
  show ?thesis by simp
qed

text \<open>
  C8, as claimed: a response whose braces are balanced, none of them inside a string
  literal, decodes to the JSON object it embeds. The scan starts at the first opening
  brace of the stripped text, whatever it belongs to: with braces in the prose before
  the object, the stretch that is parsed is the one in the prose, and the attempt fails.
  Stripping also reaches into the object: a run of three backticks inside a string is
  deleted before the parse.
\<close>

theorem decodeResponse_brace_in_prose:
  "decodeResponse sampleParse proseBraceReply = Inl (ParseFailed (js ''{see below}''))
   \<and> stripCodeFences tickedObject = tickedStripped"
proof -
  have s: "stripCodeFences proseBraceReply = proseBraceReply"
    by (simp add: decode_eval_defs proseBraceReply_def)
  have p: "sampleParse proseBraceReply = None" "sampleParse (js ''{see below}'') = None"
    by (simp_all add: sampleParse_def hotelJson_def proseBraceReply_def js_def)
  have e: "extractFirstJSONObject proseBraceReply = Some (js ''{see below}'')"
    unfolding extractFirstJSONObject_def s Let_def by code_simp
  have n: "js ''{see below}'' \<noteq> []" by (simp add: js_def)
  have "decodeResponse sampleParse proseBraceReply = Inl (ParseFailed (js ''{see below}''))"
    unfolding decodeResponse_def s e using p n by simp
  moreover have "stripCodeFences tickedObject = tickedStripped"
    by (simp add: decode_eval_defs tickedObject_def tickedStripped_def)
  ultimately show ?thesis by blast
qed

text \<open>
  C8, amended. Stripping deletes every opening fence tagged \<open>json\<close> (any letter case)
  with the white space after it, then every run of three backticks, and trims: the
  stripped text has no run of three backticks and no white space at either end, and a
  response without backticks is only trimmed. The decoder parses the stripped text; when
  that parse succeeds, its value is the answer. When it fails and the stripped text has
  a first opening brace whose depth count returns to zero, the stretch \<open>j\<close> from that
  brace to the first such place is parsed: its value is the answer, or the parse-failed
  error. When it fails and there is no such stretch (no brace, or the depth never
  returns to zero), the answer is the no-object error. In particular, for a reply made
  of prose without braces or backticks, an opening fence tagged \<open>json\<close> in any letter
  case, white space, a stretch \<open>obj\<close> that starts with an opening brace, has balanced
  braces and no backtick, more text without backticks, the closing fence and prose
  without backticks that does not start with \<open>json\<close>: the stripped text is the reply
  without the two fences and the white space after the first, trimmed; and the answer is
  the value of that text if it parses, else the value of \<open>obj\<close>, else the parse-failed
  error for \<open>obj\<close>.
\<close>

theorem decodeResponse_cases:
  "\<not> sublist [96, 96, 96] (stripCodeFences raw)
   \<and> (stripCodeFences raw = []
       \<or> (\<not> isSpace (hd (stripCodeFences raw)) \<and> \<not> isSpace (last (stripCodeFences raw))))
   \<and> (96 \<notin> set raw \<longrightarrow> stripCodeFences raw = trim raw)
   \<and> (parse (stripCodeFences raw) = Some v \<longrightarrow> decodeResponse parse raw = Inr v)
   \<and> (parse (stripCodeFences raw) = None \<and> firstBalancedObject (stripCodeFences raw) pre j post
      \<longrightarrow> decodeResponse parse raw =
            (case parse j of Some w \<Rightarrow> Inr w | None \<Rightarrow> Inl (ParseFailed j)))
   \<and> (parse (stripCodeFences raw) = None
       \<and> (\<forall>pre j post. \<not> firstBalancedObject (stripCodeFences raw) pre j post)
      \<longrightarrow> decodeResponse parse raw = Inl (NoObjectFound raw))
   \<and> (map upperAscii f = [96, 96, 96] @ js ''JSON'' \<and> (\<forall>c \<in> set ws. isSpace c)
       \<and> 96 \<notin> set p1 \<and> 96 \<notin> set obj \<and> 96 \<notin> set mid \<and> 96 \<notin> set p2
       \<and> \<not> prefix (js ''JSON'') (map upperAscii p2) \<and> 123 \<notin> set p1
       \<and> obj \<noteq> [] \<and> hd obj = 123 \<and> braceDepth obj = 0
       \<and> (\<forall>n \<in> {1 ..< length obj}. braceDepth (take n obj) \<noteq> 0)
      \<longrightarrow> stripCodeFences (p1 @ f @ ws @ obj @ mid @ [96, 96, 96] @ p2)
            = trim (p1 @ obj @ mid @ p2)
          \<and> decodeResponse parse (p1 @ f @ ws @ obj @ mid @ [96, 96, 96] @ p2) =
              (case parse (trim (p1 @ obj @ mid @ p2)) of
                 Some u \<Rightarrow> Inr u
               | None \<Rightarrow> (case parse obj of Some w \<Rightarrow> Inr w | None \<Rightarrow> Inl (ParseFailed obj))))"
proof -
  have direct: "decodeResponse parse r = Inr v" if "parse (stripCodeFences r) = Some v" for r v
    using that by (simp add: decodeResponse_def)
  have stretch: "decodeResponse parse r =
            (case parse j of Some w \<Rightarrow> Inr w | None \<Rightarrow> Inl (ParseFailed j))"
    if "parse (stripCodeFences r) = None" "firstBalancedObject (stripCodeFences r) pre j post"
    for r pre j post
  proof -
    from that(2) have "extractFirstJSONObject r = Some j"
      unfolding extract_Some_iff by blast
    moreover have "j \<noteq> []" using that(2) by (simp add: firstBalancedObject_def)
    ultimately show ?thesis
      using that(1) by (simp add: decodeResponse_def split: option.splits)
  qed
  have none: "decodeResponse parse raw = Inl (NoObjectFound raw)"
    if "parse (stripCodeFences raw) = None"
      "\<forall>pre j post. \<not> firstBalancedObject (stripCodeFences raw) pre j post"
  proof -
    have "extractFirstJSONObject raw = None"
    proof (cases "extractFirstJSONObject raw")
      case (Some j)
      then show ?thesis using that(2) unfolding extract_Some_iff by blast
    qed simp
    with that(1) show ?thesis by (simp add: decodeResponse_def)
  qed
  have fenced: "stripCodeFences (p1 @ f @ ws @ obj @ mid @ [96, 96, 96] @ p2)
            = trim (p1 @ obj @ mid @ p2)
          \<and> decodeResponse parse (p1 @ f @ ws @ obj @ mid @ [96, 96, 96] @ p2) =
              (case parse (trim (p1 @ obj @ mid @ p2)) of
                 Some u \<Rightarrow> Inr u
               | None \<Rightarrow> (case parse obj of Some w \<Rightarrow> Inr w | None \<Rightarrow> Inl (ParseFailed obj)))"
    if h: "map upperAscii f = [96, 96, 96] @ js ''JSON''" "\<forall>c \<in> set ws. isSpace c"
      "96 \<notin> set p1" "96 \<notin> set obj" "96 \<notin> set mid" "96 \<notin> set p2"
      "\<not> prefix (js ''JSON'') (map upperAscii p2)" "123 \<notin> set p1"
      "obj \<noteq> []" "hd obj = 123" "braceDepth obj = 0"
      "\<forall>n \<in> {1 ..< length obj}. braceDepth (take n obj) \<noteq> 0"
  proof -
    let ?raw = "p1 @ f @ ws @ obj @ mid @ [96, 96, 96] @ p2"
    have s: "stripCodeFences ?raw = trim (p1 @ obj @ mid @ p2)"
      using h(1-7,9,10) by (rule strip_fenced_object)
    have b: "firstBalancedObject (stripCodeFences ?raw)
           (dropWhile isSpace p1) obj (rev (dropWhile isSpace (rev (mid @ p2))))"
      using jsonFence_prefixCI [OF h(1)] h(2-6) no_json_prefixCI [OF h(7)] h(8-12)
      by (rule fenced_firstBalancedObject)
    have "decodeResponse parse ?raw =
              (case parse (trim (p1 @ obj @ mid @ p2)) of
                 Some u \<Rightarrow> Inr u
               | None \<Rightarrow> (case parse obj of Some w \<Rightarrow> Inr w | None \<Rightarrow> Inl (ParseFailed obj)))"
    proof (cases "parse (stripCodeFences ?raw)")
      case None
      then have pn: "parse (trim (p1 @ obj @ mid @ p2)) = None" by (simp only: s)
      from stretch [OF None b] show ?thesis by (simp only: pn option.case)
    next
      case (Some u)
      then have ps: "parse (trim (p1 @ obj @ mid @ p2)) = Some u" by (simp only: s)
      from direct [OF Some] show ?thesis by (simp only: ps option.case)
    qed
    with s show ?thesis by blast
  qed
  from direct stretch none fenced stripCodeFences_no_fence [of raw] stripCodeFences_ends [of raw]
    stripCodeFences_no_tick [of raw]
  show ?thesis by blast
qed

theorem decodeResponse_cases_witness:
  "stripCodeFences fencedReply
     = js ''Here is the result:'' @ [10] @ hotelJson @ [10, 10] @ js ''Thanks!''
   \<and> decodeResponse sampleParse fencedReply = Inr (JObj [(js ''type'', JStr (js ''hotel''))])
   \<and> decodeResponse sampleParse hotelJson = Inr (JObj [(js ''type'', JStr (js ''hotel''))])
   \<and> decodeResponse sampleParse truncatedReply = Inl (NoObjectFound truncatedReply)
   \<and> stripCodeFences (js ''  I cannot read this document. '') = js ''I cannot read this document.''
   \<and> decodeResponse sampleParse (js ''  I cannot read this document. '')
       = Inl (NoObjectFound (js ''  I cannot read this document. ''))
   \<and> decodeResponse sampleParse proseBraceReply = Inl (ParseFailed (js ''{see below}''))"
proof -
  let ?p1 = "js ''Here is the result:'' @ [10]"
  let ?f = "[96, 96, 96] @ js ''json''"
  let ?p2 = "[10] @ js ''Thanks!''"
  let ?ws = "[10] :: jsstring"
  let ?hotel = "JObj [(js ''type'', JStr (js ''hotel''))]"
  let ?prose = "js ''  I cannot read this document. ''"
  have shape: "fencedReply = ?p1 @ ?f @ ?ws @ hotelJson @ ?ws @ [96, 96, 96] @ ?p2"
    by (simp add: fencedReply_def js_def)
  have hyp: "map upperAscii ?f = [96, 96, 96] @ js ''JSON'' \<and> (\<forall>c \<in> set ?ws. isSpace c)
       \<and> 96 \<notin> set ?p1 \<and> 96 \<notin> set hotelJson \<and> 96 \<notin> set ?ws \<and> 96 \<notin> set ?p2
       \<and> \<not> prefix (js ''JSON'') (map upperAscii ?p2) \<and> 123 \<notin> set ?p1
       \<and> hotelJson \<noteq> [] \<and> hd hotelJson = 123 \<and> braceDepth hotelJson = 0"
    by (simp add: upperAscii_def js_def isSpace_def hotelJson_def braceDepth_def braceStep_def)
  have inner: "\<forall>n \<in> {1 ..< length hotelJson}. braceDepth (take n hotelJson) \<noteq> 0"
    by code_simp
  have tr: "trim (?p1 @ hotelJson @ ?ws @ ?p2)
            = js ''Here is the result:'' @ [10] @ hotelJson @ [10, 10] @ js ''Thanks!''"
    by (simp add: trim_def isSpace_def js_def hotelJson_def)
  have p0: "sampleParse (js ''Here is the result:'' @ [10] @ hotelJson @ [10, 10] @ js ''Thanks!'')
            = None"
    by (simp add: sampleParse_def hotelJson_def js_def)
  have p1: "sampleParse hotelJson = Some ?hotel"
    by (simp add: sampleParse_def)
  from decodeResponse_cases [where parse = sampleParse and f = ?f and ws = ?ws and ?p1.0 = ?p1
      and obj = hotelJson and mid = ?ws and ?p2.0 = ?p2] hyp inner
  have "stripCodeFences (?p1 @ ?f @ ?ws @ hotelJson @ ?ws @ [96, 96, 96] @ ?p2)
            = trim (?p1 @ hotelJson @ ?ws @ ?p2)
          \<and> decodeResponse sampleParse (?p1 @ ?f @ ?ws @ hotelJson @ ?ws @ [96, 96, 96] @ ?p2) =
              (case sampleParse (trim (?p1 @ hotelJson @ ?ws @ ?p2)) of
                 Some u \<Rightarrow> Inr u
               | None \<Rightarrow> (case sampleParse hotelJson of Some w \<Rightarrow> Inr w
                          | None \<Rightarrow> Inl (ParseFailed hotelJson)))"
    by blast
  then have c1: "stripCodeFences fencedReply
     = js ''Here is the result:'' @ [10] @ hotelJson @ [10, 10] @ js ''Thanks!''"
    and c2: "decodeResponse sampleParse fencedReply = Inr ?hotel"
    unfolding shape [symmetric] tr p0 p1 by simp_all
  have t1: "96 \<notin> set hotelJson" "trim hotelJson = hotelJson"
    by (simp_all add: hotelJson_def js_def trim_def isSpace_def)
  from decodeResponse_cases [where raw = hotelJson and parse = sampleParse and v = ?hotel] t1 p1
  have c3: "decodeResponse sampleParse hotelJson = Inr ?hotel"
    by simp
  have t2: "96 \<notin> set ?prose" "trim ?prose = js ''I cannot read this document.''"
    by (simp_all add: js_def trim_def isSpace_def)
  from decodeResponse_cases [where raw = ?prose] t2
  have c5: "stripCodeFences ?prose = js ''I cannot read this document.''"
    by simp
  have p2: "sampleParse (stripCodeFences ?prose) = None"
    unfolding c5 by (simp add: sampleParse_def hotelJson_def js_def)
  have nb: "\<forall>pre j post. \<not> firstBalancedObject (stripCodeFences ?prose) pre j post"
  proof (intro allI notI)
    fix pre j post
    assume "firstBalancedObject (stripCodeFences ?prose) pre j post"
    then have "js ''I cannot read this document.'' = pre @ j @ post" "j \<noteq> []" "hd j = 123"
      unfolding c5 firstBalancedObject_def by auto
    then have "123 \<in> set (js ''I cannot read this document.'')"
      by (metis hd_in_set in_set_conv_decomp append_assoc list.set_sel(1) Un_iff set_append)
    then show False by (simp add: js_def)
  qed
  from decodeResponse_cases [where raw = ?prose and parse = sampleParse] p2 nb
  have c6: "decodeResponse sampleParse ?prose = Inl (NoObjectFound ?prose)"
    by blast
  have s3: "stripCodeFences truncatedReply = truncatedReply"
    by (simp add: decode_eval_defs)
  have p3: "sampleParse (stripCodeFences truncatedReply) = None"
    unfolding s3 by (simp add: sampleParse_def hotelJson_def truncatedReply_def js_def)
  have e3: "extractFirstJSONObject truncatedReply = None"
    unfolding extractFirstJSONObject_def s3 Let_def by code_simp
  have nb3: "\<forall>pre j post. \<not> firstBalancedObject (stripCodeFences truncatedReply) pre j post"
    using e3 extract_Some_iff [of "truncatedReply"] by (metis option.distinct(1))
  from decodeResponse_cases [where raw = truncatedReply and parse = sampleParse] p3 nb3
  have c4: "decodeResponse sampleParse truncatedReply = Inl (NoObjectFound truncatedReply)"
    by blast
  have s4: "stripCodeFences proseBraceReply = proseBraceReply"
    by (simp add: decode_eval_defs proseBraceReply_def)
  have p4: "sampleParse (stripCodeFences proseBraceReply) = None"
    "sampleParse (js ''{see below}'') = None"
    unfolding s4 by (simp_all add: sampleParse_def hotelJson_def proseBraceReply_def js_def)
  have e4: "extractFirstJSONObject proseBraceReply = Some (js ''{see below}'')"
    unfolding extractFirstJSONObject_def s4 Let_def by code_simp
  then obtain pre post
    where b4: "firstBalancedObject (stripCodeFences proseBraceReply) pre (js ''{see below}'') post"
    unfolding extract_Some_iff by blast
  from decodeResponse_cases [where raw = proseBraceReply and parse = sampleParse and pre = pre
      and j = "js ''{see below}''" and post = post] p4 b4
  have c7: "decodeResponse sampleParse proseBraceReply = Inl (ParseFailed (js ''{see below}''))"
    by simp
  from c1 c2 c3 c4 c5 c6 c7 show ?thesis by blast
qed

section \<open>Name cleanup\<close>

lemma nameChar_not_space: "nameChar c \<Longrightarrow> \<not> isSpace c"
  by (auto simp: nameChar_def isSpace_def isAsciiUpper_def isAsciiLower_def inLatin1Range_def)

lemma keepName_iff: "keepName c \<longleftrightarrow> nameChar c \<or> isSpace c"
  by (auto simp: keepName_def nameChar_def)

lemma isSpace_32: "isSpace 32"
  by (simp add: isSpace_def)

lemma set_stripHonorifics: "set (stripHonorifics p s) \<subseteq> set s"
proof (induction p s rule: stripHonorifics.induct)
  case (1 prevWord)
  then show ?case by simp
next
  case (2 prevWord c cs)
  show ?case
  proof (cases "matchHonorific prevWord (c # cs)")
    case None
    with 2 show ?thesis by auto
  next
    case (Some n)
    with 2 have "set (stripHonorifics prevWord (c # cs)) \<subseteq> set (drop n (c # cs))"
      by simp
    also have "\<dots> \<subseteq> set (c # cs)" by (rule set_drop_subset)
    finally show ?thesis .
  qed
qed

lemma collapseWs_chars:
  "x \<in> set (collapseWs xs) \<Longrightarrow> x = 32 \<or> (x \<in> set xs \<and> \<not> isSpace x)"
proof (induction xs rule: collapseWs.induct)
  case 1
  then show ?case by simp
next
  case (2 c cs)
  show ?case
  proof (cases "isSpace c")
    case True
    with 2 have "x = 32 \<or> x \<in> set (collapseWs (dropWhile isSpace cs))" by simp
    with 2 True show ?thesis
      using set_dropWhileD by fastforce
  next
    case False
    with 2 show ?thesis by auto
  qed
qed

lemma collapseWs_hd:
  "collapseWs xs = [] \<or> hd (collapseWs xs) = 32 \<and> xs \<noteq> [] \<and> isSpace (hd xs)
   \<or> xs \<noteq> [] \<and> \<not> isSpace (hd xs) \<and> hd (collapseWs xs) = hd xs"
  by (cases xs) auto

lemma dropWhile_hd: "dropWhile P xs = [] \<or> \<not> P (hd (dropWhile P xs))"
  by (metis hd_dropWhile)

lemma noDoubleSpace_Cons:
  "noDoubleSpace (c # cs) \<longleftrightarrow> (cs = [] \<or> \<not> (c = 32 \<and> hd cs = 32)) \<and> noDoubleSpace cs"
  by (cases cs) auto

lemma noDoubleSpace_collapseWs: "noDoubleSpace (collapseWs xs)"
proof (induction xs rule: collapseWs.induct)
  case 1
  then show ?case by simp
next
  case (2 c cs)
  show ?case
  proof (cases "isSpace c")
    case True
    let ?r = "dropWhile isSpace cs"
    have "collapseWs ?r = [] \<or> hd (collapseWs ?r) \<noteq> 32"
    proof (cases ?r)
      case Nil
      then have "collapseWs ?r = []" by (simp only: collapseWs.simps)
      then show ?thesis by blast
    next
      case (Cons d ds)
      then have "\<not> isSpace d" using dropWhile_hd [of isSpace cs] by simp
      with Cons show ?thesis using isSpace_32 by auto
    qed
    with 2 True show ?thesis by (auto simp: noDoubleSpace_Cons)
  next
    case False
    then have "c \<noteq> 32" using isSpace_32 by auto
    with 2 False show ?thesis by (simp add: noDoubleSpace_Cons)
  qed
qed

lemma noDoubleSpace_append:
  "noDoubleSpace (xs @ ys) \<longleftrightarrow>
     noDoubleSpace xs \<and> noDoubleSpace ys \<and> (xs = [] \<or> ys = [] \<or> \<not> (last xs = 32 \<and> hd ys = 32))"
proof (induction xs)
  case Nil
  then show ?case by simp
next
  case (Cons a xs)
  then show ?case
    by (cases xs) (auto simp: noDoubleSpace_Cons)
qed

lemma noDoubleSpace_rev: "noDoubleSpace (rev xs) = noDoubleSpace xs"
proof (induction xs)
  case Nil
  then show ?case by simp
next
  case (Cons a xs)
  show ?case
    using Cons
    by (cases xs) (auto simp: noDoubleSpace_append noDoubleSpace_Cons hd_rev last_rev)
qed

lemma noDoubleSpace_dropWhile: "noDoubleSpace xs \<Longrightarrow> noDoubleSpace (dropWhile P xs)"
  by (induction xs) (auto simp: noDoubleSpace_Cons)

lemma noDoubleSpace_trim: "noDoubleSpace xs \<Longrightarrow> noDoubleSpace (trim xs)"
  by (simp add: trim_def noDoubleSpace_rev noDoubleSpace_dropWhile)

lemma set_trim: "set (trim xs) \<subseteq> set xs"
proof
  fix x assume "x \<in> set (trim xs)"
  then have "x \<in> set (dropWhile isSpace (rev (dropWhile isSpace xs)))"
    by (simp add: trim_def)
  then have "x \<in> set (rev (dropWhile isSpace xs))" by (rule set_dropWhileD)
  then have "x \<in> set (dropWhile isSpace xs)" by simp
  then show "x \<in> set xs" by (rule set_dropWhileD)
qed

lemma last_dropWhile_nonempty: "dropWhile P ys \<noteq> [] \<Longrightarrow> last (dropWhile P ys) = last ys"
  by (induction ys) (auto split: if_splits)

lemma upperUnit_space: "upperUnit 32 = [32]"
  by (simp add: upperUnit_def isAsciiLower_def)

lemma upperUnit_nameChar:
  assumes "nameChar c"
  shows "upperUnit c \<noteq> []" and "\<forall>u \<in> set (upperUnit c). upperNameChar u \<and> u \<noteq> 32"
proof -
  consider (lower) "97 \<le> c \<and> c \<le> 122" | (sharp) "c = 223" | (ydia) "c = 255"
    | (latin) "224 \<le> c \<and> c \<le> 254 \<and> c \<noteq> 247"
    | (upper) "65 \<le> c \<and> c \<le> 90" | (caps) "192 \<le> c \<and> c \<le> 222" | (division) "c = 247"
    | (apostrophe) "c = 39" | (hyphen) "c = 45"
    using assms
    unfolding nameChar_def isAsciiLower_def isAsciiUpper_def inLatin1Range_def
    by arith
  then have "upperUnit c \<noteq> [] \<and> (\<forall>u \<in> set (upperUnit c). upperNameChar u \<and> u \<noteq> 32)"
  proof cases
    case lower
    then have "upperUnit c = [c - 32]" by (simp add: upperUnit_def isAsciiLower_def)
    moreover from lower have "65 \<le> c - 32 \<and> c - 32 \<le> 90 \<and> c - 32 \<noteq> 32" by arith
    ultimately show ?thesis by (simp add: upperNameChar_def isAsciiUpper_def)
  next
    case sharp
    then show ?thesis by (simp add: upperUnit_def isAsciiLower_def upperNameChar_def isAsciiUpper_def)
  next
    case ydia
    then show ?thesis by (simp add: upperUnit_def isAsciiLower_def upperNameChar_def isAsciiUpper_def)
  next
    case latin
    then have "upperUnit c = [c - 32]" by (simp add: upperUnit_def isAsciiLower_def)
    moreover from latin have "192 \<le> c - 32 \<and> c - 32 \<le> 222 \<and> c - 32 \<noteq> 32" by arith
    ultimately show ?thesis by (simp add: upperNameChar_def isAsciiUpper_def)
  next
    case upper
    then have "upperUnit c = [c]" by (simp add: upperUnit_def isAsciiLower_def)
    with upper show ?thesis by (simp add: upperNameChar_def isAsciiUpper_def)
  next
    case caps
    then have "upperUnit c = [c]" by (simp add: upperUnit_def isAsciiLower_def)
    with caps show ?thesis by (simp add: upperNameChar_def isAsciiUpper_def)
  next
    case division
    then show ?thesis by (simp add: upperUnit_def isAsciiLower_def upperNameChar_def isAsciiUpper_def)
  next
    case apostrophe
    then show ?thesis by (simp add: upperUnit_def isAsciiLower_def upperNameChar_def isAsciiUpper_def)
  next
    case hyphen
    then show ?thesis by (simp add: upperUnit_def isAsciiLower_def upperNameChar_def isAsciiUpper_def)
  qed
  then show "upperUnit c \<noteq> []" and "\<forall>u \<in> set (upperUnit c). upperNameChar u \<and> u \<noteq> 32"
    by blast+
qed

lemma noDoubleSpace_no_space: "32 \<notin> set xs \<Longrightarrow> noDoubleSpace xs"
  by (induction xs rule: noDoubleSpace.induct) auto

lemma upperUnit_props:
  assumes "c = 32 \<or> nameChar c"
  shows "upperUnit c \<noteq> []" and "\<forall>u \<in> set (upperUnit c). upperNameChar u"
    and "noDoubleSpace (upperUnit c)"
    and "c \<noteq> 32 \<Longrightarrow> hd (upperUnit c) \<noteq> 32 \<and> last (upperUnit c) \<noteq> 32"
proof -
  show "upperUnit c \<noteq> []" using assms upperUnit_nameChar(1) by (auto simp: upperUnit_space)
  show "\<forall>u \<in> set (upperUnit c). upperNameChar u"
    using assms upperUnit_nameChar(2) by (auto simp: upperUnit_space upperNameChar_def)
  show "noDoubleSpace (upperUnit c)"
    using assms upperUnit_nameChar(2) [of c]
    by (auto simp: upperUnit_space intro: noDoubleSpace_no_space)
  show "hd (upperUnit c) \<noteq> 32 \<and> last (upperUnit c) \<noteq> 32" if "c \<noteq> 32"
  proof -
    from that assms have n: "nameChar c" by simp
    then have "hd (upperUnit c) \<in> set (upperUnit c)" "last (upperUnit c) \<in> set (upperUnit c)"
      using upperUnit_nameChar(1) by simp_all
    with upperUnit_nameChar(2) [OF n] show ?thesis by blast
  qed
qed

lemma toUpperCaseName_Cons: "toUpperCaseName (c # cs) = upperUnit c @ toUpperCaseName cs"
  by (simp add: toUpperCaseName_def)

lemma toUpperCaseName_snoc: "toUpperCaseName (cs @ [c]) = toUpperCaseName cs @ upperUnit c"
  by (simp add: toUpperCaseName_def)

lemma toUpperCaseName_props:
  assumes "\<forall>c \<in> set h. c = 32 \<or> nameChar c"
  shows "\<forall>u \<in> set (toUpperCaseName h). upperNameChar u"
    and "h \<noteq> [] \<Longrightarrow> toUpperCaseName h \<noteq> []"
    and "h \<noteq> [] \<Longrightarrow> hd h \<noteq> 32 \<Longrightarrow> hd (toUpperCaseName h) \<noteq> 32"
    and "h \<noteq> [] \<Longrightarrow> last h \<noteq> 32 \<Longrightarrow> last (toUpperCaseName h) \<noteq> 32"
    and "noDoubleSpace h \<Longrightarrow> noDoubleSpace (toUpperCaseName h)"
proof -
  show "\<forall>u \<in> set (toUpperCaseName h). upperNameChar u"
    using assms upperUnit_props(2) by (auto simp: toUpperCaseName_def)
  show ne: "toUpperCaseName h \<noteq> []" if "h \<noteq> []"
    using that assms upperUnit_props(1) [of "hd h"]
    by (cases h) (auto simp: toUpperCaseName_Cons)
  show "hd (toUpperCaseName h) \<noteq> 32" if "h \<noteq> []" "hd h \<noteq> 32"
  proof (cases h)
    case Nil
    with that show ?thesis by simp
  next
    case (Cons c cs)
    with assms that have c: "c = 32 \<or> nameChar c" "c \<noteq> 32" by auto
    from upperUnit_props(1) [OF c(1)] upperUnit_props(4) [OF c]
    show ?thesis by (simp add: Cons toUpperCaseName_Cons)
  qed
  show "last (toUpperCaseName h) \<noteq> 32" if "h \<noteq> []" "last h \<noteq> 32"
  proof -
    from that obtain cs c where h: "h = cs @ [c]" by (metis rev_exhaust)
    with assms that have c: "c = 32 \<or> nameChar c" "c \<noteq> 32" by auto
    from upperUnit_props(1) [OF c(1)] upperUnit_props(4) [OF c]
    show ?thesis by (simp add: h toUpperCaseName_snoc)
  qed
  show "noDoubleSpace (toUpperCaseName h)" if "noDoubleSpace h"
    using that assms
  proof (induction h)
    case Nil
    then show ?case by (simp add: toUpperCaseName_def)
  next
    case (Cons c cs)
    then have c: "c = 32 \<or> nameChar c" and cs: "\<forall>c \<in> set cs. c = 32 \<or> nameChar c"
      and nd: "noDoubleSpace cs" and bd: "cs = [] \<or> \<not> (c = 32 \<and> hd cs = 32)"
      by (auto simp: noDoubleSpace_Cons)
    have ih: "noDoubleSpace (toUpperCaseName cs)" using Cons.IH nd cs by blast
    have edge: "\<not> (last (upperUnit c) = 32 \<and> hd (toUpperCaseName cs) = 32)"
      if "toUpperCaseName cs \<noteq> []"
    proof (cases "c = 32")
      case True
      from that have ne: "cs \<noteq> []" by (auto simp: toUpperCaseName_def)
      with bd True have h: "hd cs \<noteq> 32" by blast
      from ne cs have "hd cs = 32 \<or> nameChar (hd cs)" by simp
      with h have n: "nameChar (hd cs)" by blast
      obtain d ds where d: "cs = d # ds" using ne by (cases cs) auto
      from upperUnit_props(1) [of d] upperUnit_props(4) [of d] n h
      have "hd (toUpperCaseName cs) \<noteq> 32"
        by (simp add: d toUpperCaseName_Cons)
      then show ?thesis by blast
    next
      case False
      with upperUnit_props(4) [OF c] show ?thesis by blast
    qed
    show ?case
      unfolding toUpperCaseName_Cons noDoubleSpace_append
      using ih edge upperUnit_props(3) [OF c] by blast
  qed
qed

lemma stripped_props:
  fixes xs :: jsstring
  defines "st \<equiv> trim (collapseWs (map (\<lambda>c. if keepName c then c else 32) xs))"
  shows "\<forall>c \<in> set st. c = 32 \<or> nameChar c" and "noDoubleSpace st"
    and "st = [] \<or> hd st \<noteq> 32 \<and> last st \<noteq> 32"
proof -
  show "\<forall>c \<in> set st. c = 32 \<or> nameChar c"
  proof
    fix c assume "c \<in> set st"
    then have "c \<in> set (collapseWs (map (\<lambda>c. if keepName c then c else 32) xs))"
      unfolding st_def using set_trim by blast
    from collapseWs_chars [OF this]
    consider "c = 32" | "c \<in> set (map (\<lambda>c. if keepName c then c else 32) xs)" "\<not> isSpace c"
      by blast
    then show "c = 32 \<or> nameChar c"
    proof cases
      case 1
      then show ?thesis by simp
    next
      case 2
      then have "\<exists>x. c = (if keepName x then x else 32)"
        unfolding set_map by blast
      then obtain x where x: "c = (if keepName x then x else 32)" ..
      have "keepName x"
      proof (rule ccontr)
        assume "\<not> keepName x"
        with x have "c = 32" by simp
        with 2(2) isSpace_32 show False by simp
      qed
      with x have "keepName c" by simp
      with 2(2) show ?thesis by (simp add: keepName_iff)
    qed
  qed
  show "noDoubleSpace st"
    unfolding st_def by (intro noDoubleSpace_trim noDoubleSpace_collapseWs)
  show "st = [] \<or> hd st \<noteq> 32 \<and> last st \<noteq> 32"
  proof (cases "st = []")
    case True
    then show ?thesis by simp
  next
    case False
    with trim_ends [of "collapseWs (map (\<lambda>c. if keepName c then c else 32) xs)"]
    have "\<not> isSpace (hd st)" "\<not> isSpace (last st)"
      unfolding st_def by blast+
    then have "hd st \<noteq> 32" "last st \<noteq> 32"
      using isSpace_32 by auto
    then show ?thesis by simp
  qed
qed

lemma cleanNameAllCaps_shape:
  "cleanNameAllCaps name = JNull
   \<or> (\<exists>r. cleanNameAllCaps name = JStr r \<and> r \<noteq> [] \<and> (\<forall>c \<in> set r. upperNameChar c)
          \<and> hd r \<noteq> 32 \<and> last r \<noteq> 32 \<and> noDoubleSpace r)"
proof (cases "\<exists>s. name = Some (JStr s) \<and> s \<noteq> []")
  case False
  then have "cleanNameAllCaps name = JNull"
    by (auto simp: cleanNameAllCaps_def split: option.splits json.splits)
  then show ?thesis by blast
next
  case True
  then obtain s where s: "name = Some (JStr s)" "s \<noteq> []" by blast
  define st where "st = trim (collapseWs (map (\<lambda>c. if keepName c then c else 32)
                                              (stripHonorifics False s)))"
  note p = stripped_props [of "stripHonorifics False s", folded st_def]
  show ?thesis
  proof (cases "st = []")
    case True
    then have "cleanNameAllCaps name = JNull"
      using s by (simp add: cleanNameAllCaps_def st_def [symmetric])
    then show ?thesis by blast
  next
    case False
    then have "cleanNameAllCaps name = JStr (toUpperCaseName st)"
      using s by (simp add: cleanNameAllCaps_def st_def [symmetric] Let_def)
    moreover note toUpperCaseName_props [OF p(1)]
    ultimately show ?thesis using False p(2,3) by blast
  qed
qed

lemma trim_collapseWs_all_space:
  assumes "\<forall>c \<in> set xs. isSpace c"
  shows "trim (collapseWs xs) = []"
proof (cases xs)
  case Nil
  then show ?thesis by (simp add: trim_def)
next
  case (Cons c cs)
  with assms have d: "dropWhile isSpace cs = []" and c: "isSpace c" by auto
  have "collapseWs xs = 32 # collapseWs (dropWhile isSpace cs)"
    using c by (simp add: Cons)
  then have "collapseWs xs = [32]" unfolding d by simp
  then show ?thesis by (simp add: trim_def isSpace_32)
qed

lemma cleanNameAllCaps_no_nameChar:
  assumes "\<forall>c \<in> set s. \<not> nameChar c"
  shows "cleanNameAllCaps (Some (JStr s)) = JNull"
proof -
  have "\<forall>c \<in> set (stripHonorifics False s). \<not> nameChar c"
    using assms set_stripHonorifics by blast
  then have "\<forall>c \<in> set (map (\<lambda>c. if keepName c then c else 32) (stripHonorifics False s)). isSpace c"
    by (auto simp: keepName_iff isSpace_32)
  from trim_collapseWs_all_space [OF this] show ?thesis
    by (simp add: cleanNameAllCaps_def)
qed

lemma foldCase_letter: "65 \<le> foldCase c \<Longrightarrow> foldCase c \<le> 90 \<Longrightarrow> isWordChar c"
  by (auto simp: foldCase_def isWordChar_def isAsciiLower_def isAsciiUpper_def split: if_splits)

lemma foldCase_not_word: "\<not> isWordChar d \<Longrightarrow> foldCase d = d \<and> \<not> (65 \<le> d \<and> d \<le> 90)"
  by (auto simp: foldCase_def isWordChar_def isAsciiLower_def isAsciiUpper_def)

lemma honorific_variant_cases:
  assumes "h \<in> set honorifics" "map foldCase h' = h"
  obtains (mr) a b where "h' = [a, b]" "foldCase a = 77" "foldCase b = 82"
  | (mrs) a b c where "h' = [a, b, c]" "foldCase a = 77" "foldCase b = 82" "foldCase c = 83"
  | (ms) a b where "h' = [a, b]" "foldCase a = 77" "foldCase b = 83"
  | (miss) a b c d where "h' = [a, b, c, d]" "foldCase a = 77" "foldCase b = 73"
      "foldCase c = 83" "foldCase d = 83"
  | (dr) a b where "h' = [a, b]" "foldCase a = 68" "foldCase b = 82"
  | (prof) a b c d where "h' = [a, b, c, d]" "foldCase a = 80" "foldCase b = 82"
      "foldCase c = 79" "foldCase d = 70"
proof -
  from assms(1) consider "h = [77, 82]" | "h = [77, 82, 83]" | "h = [77, 83]"
    | "h = [77, 73, 83, 83]" | "h = [68, 82]" | "h = [80, 82, 79, 70]"
    by (auto simp: honorifics_def js_def)
  then show ?thesis
  proof cases
    case 1
    with assms(2) obtain a b where "h' = [a, b]" "foldCase a = 77" "foldCase b = 82"
      by (auto simp: map_eq_Cons_conv)
    then show ?thesis by (rule mr)
  next
    case 2
    with assms(2) obtain a b c where "h' = [a, b, c]" "foldCase a = 77" "foldCase b = 82" "foldCase c = 83"
      by (auto simp: map_eq_Cons_conv)
    then show ?thesis by (rule mrs)
  next
    case 3
    with assms(2) obtain a b where "h' = [a, b]" "foldCase a = 77" "foldCase b = 83"
      by (auto simp: map_eq_Cons_conv)
    then show ?thesis by (rule ms)
  next
    case 4
    with assms(2) obtain a b c d where "h' = [a, b, c, d]" "foldCase a = 77" "foldCase b = 73" "foldCase c = 83" "foldCase d = 83"
      by (auto simp: map_eq_Cons_conv)
    then show ?thesis by (rule miss)
  next
    case 5
    with assms(2) obtain a b where "h' = [a, b]" "foldCase a = 68" "foldCase b = 82"
      by (auto simp: map_eq_Cons_conv)
    then show ?thesis by (rule dr)
  next
    case 6
    with assms(2) obtain a b c d where "h' = [a, b, c, d]" "foldCase a = 80" "foldCase b = 82" "foldCase c = 79" "foldCase d = 70"
      by (auto simp: map_eq_Cons_conv)
    then show ?thesis by (rule prof)
  qed
qed

lemmas match_defs = matchHonorific_def honorifics_def js_def matchAlt_def prefixCI_def

lemma match_variant:
  assumes "h \<in> set honorifics" "map foldCase h' = h" "\<not> isWordChar x"
  shows "matchHonorific False (h' @ x # r) = Some (length h' + (if x = 46 then 1 else 0))"
    and "h' \<noteq> []" and "isWordChar (last h')"
proof -
  note x = foldCase_not_word [OF assms(3)]
  have f: "foldCase 77 = 77" "foldCase 82 = 82" "foldCase 83 = 83" "foldCase 73 = 73"
    "foldCase 68 = 68" "foldCase 80 = 80" "foldCase 79 = 79" "foldCase 70 = 70"
    by (simp_all add: foldCase_def isAsciiLower_def)
  from assms(1,2)
  have "matchHonorific False (h' @ x # r) = Some (length h' + (if x = 46 then 1 else 0))
        \<and> h' \<noteq> [] \<and> isWordChar (last h')"
  proof (cases rule: honorific_variant_cases)
    case (mr a b)
    then show ?thesis
      using x assms(3) foldCase_letter [of b] by (simp add: match_defs f)
  next
    case (mrs a b c)
    then show ?thesis
      using x assms(3) foldCase_letter [of c] by (simp add: match_defs f)
  next
    case (ms a b)
    then show ?thesis
      using x assms(3) foldCase_letter [of b] by (simp add: match_defs f)
  next
    case (miss a b c d)
    then show ?thesis
      using x assms(3) foldCase_letter [of d] by (simp add: match_defs f)
  next
    case (dr a b)
    then show ?thesis
      using x assms(3) foldCase_letter [of b] by (simp add: match_defs f)
  next
    case (prof a b c d)
    then show ?thesis
      using x assms(3) foldCase_letter [of d] by (simp add: match_defs f)
  qed
  then show "matchHonorific False (h' @ x # r) = Some (length h' + (if x = 46 then 1 else 0))"
    and "h' \<noteq> []" and "isWordChar (last h')"
    by blast+
qed


lemma stripHonorifics_leading:
  assumes "h \<in> set honorifics" "map foldCase h' = h" "\<not> isWordChar x"
  shows "stripHonorifics False (h' @ x # r) =
           (if x = 46 then stripHonorifics False r else x # stripHonorifics False r)"
proof -
  note m = match_variant [OF assms]
  from m(2) obtain c cs where h': "h' = c # cs" by (cases h') auto
  have step: "stripHonorifics False (h' @ x # r) =
      stripHonorifics (isWordChar ((h' @ x # r) ! (length h' + (if x = 46 then 1 else 0) - 1)))
        (drop (length h' + (if x = 46 then 1 else 0)) (h' @ x # r))"
    using m(1) [of r] unfolding h' by simp
  show ?thesis
  proof (cases "x = 46")
    case True
    then have "(h' @ x # r) ! (length h' + (if x = 46 then 1 else 0) - 1) = 46"
      "drop (length h' + (if x = 46 then 1 else 0)) (h' @ x # r) = r"
      by simp_all
    with step True assms(3) show ?thesis by simp
  next
    case False
    have "(h' @ x # r) ! (length h' - 1) = last h'"
      using m(2) by (simp add: nth_append last_conv_nth)
    with False have "(h' @ x # r) ! (length h' + (if x = 46 then 1 else 0) - 1) = last h'"
      "drop (length h' + (if x = 46 then 1 else 0)) (h' @ x # r) = x # r"
      by simp_all
    with step m(3) have "stripHonorifics False (h' @ x # r) = stripHonorifics True (x # r)"
      by simp
    also have "\<dots> = x # stripHonorifics False r"
      using assms(3) by (simp add: matchHonorific_def)
    finally show ?thesis using False by simp
  qed
qed

lemma trim_collapseWs_dropWhile:
  "trim (collapseWs (dropWhile isSpace xs)) = trim (collapseWs xs)"
proof (cases xs)
  case Nil
  then show ?thesis by simp
next
  case (Cons c cs)
  show ?thesis
  proof (cases "isSpace c")
    case True
    have "trim (collapseWs xs) = trim (32 # collapseWs (dropWhile isSpace cs))"
      using True by (simp add: Cons)
    also have "\<dots> = trim (collapseWs (dropWhile isSpace cs))"
      by (simp add: trim_def isSpace_32)
    finally show ?thesis using True by (simp add: Cons)
  next
    case False
    then show ?thesis by (simp add: Cons)
  qed
qed

lemma trim_collapseWs_space:
  "isSpace c \<Longrightarrow> trim (collapseWs (c # xs)) = trim (collapseWs xs)"
  using trim_collapseWs_dropWhile [of "c # xs"] trim_collapseWs_dropWhile [of xs] by simp

lemma cleanNameAllCaps_alt:
  "cleanNameAllCaps (Some (JStr s)) =
     (let stripped = trim (collapseWs (map (\<lambda>c. if keepName c then c else 32)
                                           (stripHonorifics False s)))
      in if stripped = [] then JNull else JStr (toUpperCaseName stripped))"
  by (cases s) (simp_all add: cleanNameAllCaps_def trim_def)

lemma cleanNameAllCaps_leading_honorific:
  assumes "h \<in> set honorifics" "map foldCase h' = h"
  shows "cleanNameAllCaps (Some (JStr (h' @ 46 # r))) = cleanNameAllCaps (Some (JStr r))"
    and "cleanNameAllCaps (Some (JStr (h' @ 32 # r))) = cleanNameAllCaps (Some (JStr r))"
proof -
  have w: "\<not> isWordChar 46" "\<not> isWordChar 32"
    by (simp_all add: isWordChar_def isAsciiUpper_def isAsciiLower_def isDigit_def)
  have "stripHonorifics False (h' @ 46 # r) = stripHonorifics False r"
    using stripHonorifics_leading [OF assms w(1)] by simp
  then show "cleanNameAllCaps (Some (JStr (h' @ 46 # r))) = cleanNameAllCaps (Some (JStr r))"
    unfolding cleanNameAllCaps_alt by simp
  let ?f = "\<lambda>c. if keepName c then c else (32 :: nat)"
  have "stripHonorifics False (h' @ 32 # r) = 32 # stripHonorifics False r"
    using stripHonorifics_leading [OF assms w(2)] by simp
  moreover have "keepName 32" by (simp add: keepName_def isSpace_32)
  ultimately have "map ?f (stripHonorifics False (h' @ 32 # r))
                   = 32 # map ?f (stripHonorifics False r)"
    by simp
  then have "trim (collapseWs (map ?f (stripHonorifics False (h' @ 32 # r))))
             = trim (collapseWs (map ?f (stripHonorifics False r)))"
    by (simp only: trim_collapseWs_space [OF isSpace_32])
  then show "cleanNameAllCaps (Some (JStr (h' @ 32 # r))) = cleanNameAllCaps (Some (JStr r))"
    unfolding cleanNameAllCaps_alt by (simp only:)
qed

lemmas name_eval_defs = cleanNameAllCaps_def js_def matchHonorific_def honorifics_def
  matchAlt_def prefixCI_def foldCase_def isAsciiLower_def trim_def keepName_def isSpace_def
  isAsciiUpper_def inLatin1Range_def toUpperCaseName_def upperUnit_def isWordChar_def
  isDigit_def

text \<open>
  C9, as claimed: only letters, spaces, hyphens and apostrophes survive, and every input
  made of punctuation alone gives \<open>null\<close>. A lone hyphen is kept, and so is the
  multiplication sign U+00D7, which lies in the range of the filter.
\<close>

theorem cleanNameAllCaps_keeps_punctuation:
  "cleanNameAllCaps (Some (JStr (js ''-''))) = JStr (js ''-'')
   \<and> cleanNameAllCaps (Some (JStr [215])) = JStr [215]"
  by (simp add: name_eval_defs)

subsection \<open>Name cleanup: honorific tokens\<close>

lemma honorificWords_set: "set honorifics = honorificWords"
  by (auto simp: honorifics_def honorificWords_def)

lemma honorific_upper:
  assumes "h \<in> set honorifics"
  shows "map foldCase h = h" and "\<forall>y \<in> set h. 65 \<le> y \<and> y \<le> 90"
  using assms by (auto simp: honorifics_def js_def foldCase_def isAsciiLower_def)

lemma matchAlts_SomeD: "matchAlts hs s = Some n \<Longrightarrow> \<exists>h \<in> set hs. matchAlt h s = Some n"
  by (induction hs) (auto split: option.splits)

lemma matchAlt_SomeD:
  assumes "matchAlt h s = Some n"
  shows "prefixCI h s" and "drop (length h) s = [] \<or> \<not> isWordChar (hd (drop (length h) s))"
  using assms by (auto simp: matchAlt_def split: if_splits list.splits)

lemma takeWhile_eq_take:
  assumes "\<forall>x \<in> set (take n s). P x" "drop n s = [] \<or> \<not> P (hd (drop n s))"
  shows "takeWhile P s = take n s"
proof -
  have "takeWhile P (drop n s) = []"
    using assms(2) by (cases "drop n s") auto
  moreover have "takeWhile P (take n s @ drop n s) = take n s @ takeWhile P (drop n s)"
    using assms(1) by (intro takeWhile_append2) blast
  ultimately show ?thesis by simp
qed

lemma match_is_token:
  assumes "matchHonorific False s = Some n"
  shows "map foldCase (takeWhile isWordChar s) \<in> honorificWords"
proof -
  from assms have "matchAlts honorifics s = Some n"
    by (simp add: matchHonorific_def)
  from matchAlts_SomeD [OF this]
  obtain h where h: "h \<in> set honorifics" "matchAlt h s = Some n" by blast
  note m = matchAlt_SomeD [OF h(2)] and u = honorific_upper [OF h(1)]
  from m(1) have eq: "map foldCase (take (length h) s) = h"
    by (simp add: prefixCI_def u(1))
  have "isWordChar x" if "x \<in> set (take (length h) s)" for x
  proof -
    from that have "foldCase x \<in> set (map foldCase (take (length h) s))" by simp
    then have "foldCase x \<in> set h" by (simp only: eq)
    with u(2) have "65 \<le> foldCase x" "foldCase x \<le> 90" by blast+
    then show ?thesis by (rule foldCase_letter)
  qed
  then have "takeWhile isWordChar s = take (length h) s"
    using m(2) by (intro takeWhile_eq_take) blast+
  with eq h(1) show ?thesis by (simp add: honorificWords_set [symmetric])
qed

lemma match_nonword_head: "\<not> isWordChar d \<Longrightarrow> matchHonorific p (d # r) = None"
proof (cases "matchHonorific p (d # r)")
  case None
  then show ?thesis by simp
next
  case (Some n)
  assume d: "\<not> isWordChar d"
  from Some have "matchHonorific False (d # r) = Some n"
    by (cases p) (simp_all add: matchHonorific_def)
  from match_is_token [OF this] d have "[] \<in> honorificWords" by simp
  then show ?thesis by (simp add: honorificWords_def js_def)
qed

lemma strip_nonword_head:
  "\<not> isWordChar d \<Longrightarrow> stripHonorifics p (d # r) = d # stripHonorifics False r"
  by (simp add: match_nonword_head)


lemma strip_inside_run:
  "\<forall>x \<in> set u. isWordChar x \<Longrightarrow> stripHonorifics True (u @ rest) = u @ stripHonorifics True rest"
  by (induction u) (simp_all add: matchHonorific_def)

lemma strip_after_run:
  "rest = [] \<or> \<not> isWordChar (hd rest) \<Longrightarrow> stripHonorifics True rest = stripHonorifics False rest"
  by (cases rest) (simp_all add: match_nonword_head)

lemma match_variant_end:
  assumes "h \<in> set honorifics" "map foldCase h' = h"
  shows "matchHonorific False h' = Some (length h')"
proof -
  have f: "foldCase 77 = 77" "foldCase 82 = 82" "foldCase 83 = 83" "foldCase 73 = 73"
    "foldCase 68 = 68" "foldCase 80 = 80" "foldCase 79 = 79" "foldCase 70 = 70"
    by (simp_all add: foldCase_def isAsciiLower_def)
  from assms show ?thesis
  proof (cases rule: honorific_variant_cases)
    case (mr a b)
    then show ?thesis by (simp add: match_defs f)
  next
    case (mrs a b c)
    then show ?thesis using foldCase_letter [of c] by (simp add: match_defs f)
  next
    case (ms a b)
    then show ?thesis by (simp add: match_defs f)
  next
    case (miss a b c d)
    then show ?thesis by (simp add: match_defs f)
  next
    case (dr a b)
    then show ?thesis by (simp add: match_defs f)
  next
    case (prof a b c d)
    then show ?thesis by (simp add: match_defs f)
  qed
qed

lemma stripHonorifics_token_end:
  assumes "h \<in> set honorifics" "map foldCase h' = h"
  shows "stripHonorifics False h' = []"
proof -
  from assms have "h' \<noteq> []" by (auto simp: honorifics_def js_def)
  then obtain c cs where h': "h' = c # cs" by (cases h') auto
  from match_variant_end [OF assms] show ?thesis
    unfolding h' by simp
qed

lemma tokenChar_eq: "tokenChar = isWordChar"
  by (auto simp: fun_eq_iff tokenChar_def isWordChar_def isAsciiUpper_def isAsciiLower_def
      isDigit_def)

lemma stripHonorifics_tokens: "stripHonorifics False s = dropHonorificTokens s"
proof (induction s rule: dropHonorificTokens.induct)
  case 1
  then show ?case by simp
next
  case (2 c cs)
  let ?w = "c # takeWhile isWordChar cs"
  let ?rest = "dropWhile isWordChar cs"
  note IH = "2.IH" [unfolded tokenChar_eq upperAscii_eq]
  note ds = dropHonorificTokens.simps(2) [of c cs, unfolded tokenChar_eq upperAscii_eq]
  show ?case
  proof (cases "isWordChar c")
    case False
    with IH(3) ds show ?thesis by (simp add: match_nonword_head)
  next
    case True
    have s: "c # cs = ?w @ ?rest" by simp
    have w: "takeWhile isWordChar (c # cs) = ?w" using True by simp
    have allw: "\<forall>x \<in> set (takeWhile isWordChar cs). isWordChar x"
      by (auto dest: set_takeWhileD)
    have r: "?rest = [] \<or> \<not> isWordChar (hd ?rest)"
      by (metis hd_dropWhile)
    show ?thesis
    proof (cases "map foldCase ?w \<in> honorificWords")
      case tok: True
      then have h: "map foldCase ?w \<in> set honorifics" by (simp add: honorificWords_set)
      have "stripHonorifics False (?w @ ?rest) = stripHonorifics False (afterToken ?rest)"
      proof (cases ?rest)
        case Nil
        have "stripHonorifics False (?w @ ?rest) = stripHonorifics False ?w"
          by (simp only: Nil append_Nil2)
        also have "\<dots> = []"
          by (rule stripHonorifics_token_end [OF h refl])
        also have "[] = stripHonorifics False (afterToken ?rest)"
          unfolding Nil by (simp add: afterToken_def)
        finally show ?thesis .
      next
        case (Cons x r')
        with r have x: "\<not> isWordChar x" by simp
        show ?thesis
          unfolding Cons stripHonorifics_leading [OF h refl x]
          using x by (simp add: afterToken_def match_nonword_head)
      qed
      also have "\<dots> = dropHonorificTokens (afterToken ?rest)"
        using IH(1) True tok by simp
      also have "\<dots> = dropHonorificTokens (c # cs)"
        using True tok by (simp only: ds if_True)
      finally show ?thesis
        by (simp only: s [symmetric])
    next
      case notok: False
      have "matchHonorific False (c # cs) = None"
      proof (cases "matchHonorific False (c # cs)")
        case (Some n)
        from match_is_token [OF this] notok show ?thesis by (simp only: w)
      qed simp
      then have "stripHonorifics False (c # cs) = c # stripHonorifics True cs"
        using True by simp
      also have "cs = takeWhile isWordChar cs @ ?rest" by simp
      then have "stripHonorifics True cs
                 = takeWhile isWordChar cs @ stripHonorifics True ?rest"
        using strip_inside_run [OF allw, of ?rest] by simp
      also have "stripHonorifics True ?rest = stripHonorifics False ?rest"
        using r by (rule strip_after_run)
      also have "\<dots> = dropHonorificTokens ?rest"
        using IH(2) True notok by simp
      finally have e: "stripHonorifics False (c # cs)
                       = c # takeWhile isWordChar cs @ dropHonorificTokens ?rest" .
      have "dropHonorificTokens (c # cs) = ?w @ dropHonorificTokens ?rest"
        using True notok by (simp only: ds if_True if_False)
      with e show ?thesis by simp
    qed
  qed
qed

subsection \<open>Name cleanup: the words that remain\<close>

lemma nameUnit_eq: "nameUnit = nameChar"
  by (simp add: fun_eq_iff nameUnit_def nameChar_def isAsciiUpper_def isAsciiLower_def
      inLatin1Range_def)

lemma nameUnit_not_space: "nameUnit c \<Longrightarrow> \<not> isSpace c"
  by (auto simp: nameUnit_def isSpace_def)

lemma filtered_space: "isSpace (if keepName c then c else 32) \<longleftrightarrow> \<not> nameUnit c"
  using nameUnit_not_space [of c] by (auto simp: keepName_iff nameUnit_eq isSpace_32)

lemma filtered_nameUnit: "nameUnit c \<Longrightarrow> (if keepName c then c else 32) = c"
  by (simp add: keepName_iff nameUnit_eq)

lemma collapseWs_nonspace_append:
  "\<forall>x \<in> set w. \<not> isSpace x \<Longrightarrow> collapseWs (w @ ys) = w @ collapseWs ys"
  by (induction w) simp_all

lemma collapseWs_after_run:
  "collapseWs (dropWhile isSpace ys) = [] \<or> \<not> isSpace (hd (collapseWs (dropWhile isSpace ys)))"
proof (cases "dropWhile isSpace ys")
  case Nil
  show ?thesis unfolding Nil by simp
next
  case (Cons d r)
  then have "\<not> isSpace d" by (metis hd_dropWhile list.sel(1) list.simps(3))
  then show ?thesis unfolding Cons by simp
qed

lemma rtrim_space_Cons:
  "isSpace x \<Longrightarrow> rev (dropWhile isSpace (rev (x # zs))) =
     (if rev (dropWhile isSpace (rev zs)) = [] then [] else x # rev (dropWhile isSpace (rev zs)))"
  by (simp add: dropWhile_append)

lemma rtrim_nonspace_append:
  assumes "w \<noteq> []" "\<forall>x \<in> set w. \<not> isSpace x"
  shows "rev (dropWhile isSpace (rev (w @ zs))) = w @ rev (dropWhile isSpace (rev zs))"
proof -
  from assms have "\<not> isSpace (hd (rev w))" by (simp add: hd_rev)
  with assms(1) have "dropWhile isSpace (rev w) = rev w"
    by (cases "rev w") auto
  then show ?thesis by (simp add: dropWhile_append)
qed

lemma trim_nonspace_append:
  assumes "w \<noteq> []" "\<forall>x \<in> set w. \<not> isSpace x"
  shows "trim (w @ zs) = w @ rev (dropWhile isSpace (rev zs))"
proof -
  from assms have "dropWhile isSpace (w @ zs) = w @ zs" by (cases w) auto
  then show ?thesis
    unfolding trim_def using rtrim_nonspace_append [OF assms] by simp
qed

lemma trim_no_leading:
  "zs = [] \<or> \<not> isSpace (hd zs) \<Longrightarrow> trim zs = rev (dropWhile isSpace (rev zs))"
  by (cases zs) (auto simp: trim_def)

lemma nameWords_nonempty: "[] \<notin> set (nameWords xs)"
  by (induction xs rule: nameWords.induct) auto

lemma joinWords_Nil: "[] \<notin> set ws \<Longrightarrow> joinWords ws = [] \<longleftrightarrow> ws = []"
  by (cases ws) auto

lemma name_words:
  "trim (collapseWs (map (\<lambda>c. if keepName c then c else 32) xs)) = joinWords (nameWords xs)"
proof (induction xs rule: nameWords.induct)
  case 1
  then show ?case by (simp add: trim_def)
next
  case (2 c cs)
  let ?f = "\<lambda>c. if keepName c then c else 32"
  show ?case
  proof (cases "nameUnit c")
    case False
    then have "isSpace (?f c)" by (simp add: filtered_space)
    then have "trim (collapseWs (?f c # map ?f cs)) = trim (collapseWs (map ?f cs))"
      by (rule trim_collapseWs_space)
    with False "2.IH"(2) show ?thesis by simp
  next
    case True
    let ?tw = "takeWhile nameUnit cs"
    let ?rest = "dropWhile nameUnit cs"
    let ?w = "c # ?tw"
    let ?Y = "collapseWs (map ?f ?rest)"
    let ?J = "joinWords (nameWords ?rest)"
    have allw: "\<forall>x \<in> set ?w. nameUnit x"
      using True by (auto dest: set_takeWhileD)
    then have ns: "\<forall>x \<in> set ?w. \<not> isSpace x"
      using nameUnit_not_space by blast
    have idw: "map ?f ?w = ?w"
    proof (rule map_idI)
      fix x assume "x \<in> set ?w"
      with allw have "nameUnit x" by blast
      then show "?f x = x" by (rule filtered_nameUnit)
    qed
    have e: "c # cs = ?w @ ?rest" by simp
    have "map ?f (c # cs) = map ?f (?w @ ?rest)"
      by (simp only: e [symmetric])
    also have "\<dots> = map ?f ?w @ map ?f ?rest"
      by (rule map_append)
    finally have m: "map ?f (c # cs) = ?w @ map ?f ?rest"
      by (simp only: idw)
    have IH: "trim ?Y = ?J"
      using "2.IH"(1) True by simp
    have Y: "rev (dropWhile isSpace (rev ?Y)) = (if nameWords ?rest = [] then [] else 32 # ?J)"
    proof (cases ?rest)
      case Nil
      show ?thesis unfolding Nil by simp
    next
      case (Cons d r')
      then have "\<not> nameUnit d" by (metis hd_dropWhile list.sel(1) list.simps(3))
      then have d: "isSpace (?f d)" by (simp add: filtered_space)
      let ?Z = "collapseWs (dropWhile isSpace (map ?f r'))"
      have Yeq: "?Y = 32 # ?Z"
        unfolding Cons using d by simp
      have "trim ?Y = trim ?Z"
        unfolding Yeq by (simp add: trim_def isSpace_32)
      also have "\<dots> = rev (dropWhile isSpace (rev ?Z))"
        using collapseWs_after_run by (rule trim_no_leading)
      finally have Z: "rev (dropWhile isSpace (rev ?Z)) = ?J"
        using IH by simp
      have "rev (dropWhile isSpace (rev ?Y)) = (if ?J = [] then [] else 32 # ?J)"
        unfolding Yeq rtrim_space_Cons [OF isSpace_32] Z ..
      then show ?thesis
        using joinWords_Nil [OF nameWords_nonempty, of ?rest] by simp
    qed
    have "trim (collapseWs (map ?f (c # cs))) = trim (?w @ ?Y)"
      unfolding m using collapseWs_nonspace_append [OF ns] by simp
    also have "\<dots> = ?w @ rev (dropWhile isSpace (rev ?Y))"
      using ns by (intro trim_nonspace_append) simp_all
    also have "\<dots> = joinWords (?w # nameWords ?rest)"
      unfolding Y by simp
    finally show ?thesis using True by simp
  qed
qed

lemma cleanNameAllCaps_words:
  "cleanNameAllCaps (Some (JStr s)) =
     (let ws = nameWords (dropHonorificTokens s)
      in if ws = [] then JNull else JStr (toUpperCaseName (joinWords ws)))"
  unfolding cleanNameAllCaps_alt stripHonorifics_tokens name_words Let_def
  using joinWords_Nil [OF nameWords_nonempty, of "dropHonorificTokens s"] by simp

lemma toUpperCaseName_ascii:
  "\<forall>c \<in> set w. c < 128 \<Longrightarrow> toUpperCaseName w = map upperAscii w"
  by (induction w) (auto simp: toUpperCaseName_def upperUnit_def upperAscii_def isAsciiLower_def)

lemma cleanNameAllCaps_leading_token:
  assumes "map upperAscii h' \<in> honorificWords"
  shows "cleanNameAllCaps (Some (JStr (h' @ 46 # r))) = cleanNameAllCaps (Some (JStr r))"
    and "cleanNameAllCaps (Some (JStr (h' @ 32 # r))) = cleanNameAllCaps (Some (JStr r))"
proof -
  from assms have "map foldCase h' \<in> set honorifics"
    by (simp add: upperAscii_eq honorificWords_set)
  from cleanNameAllCaps_leading_honorific [OF this refl]
  show "cleanNameAllCaps (Some (JStr (h' @ 46 # r))) = cleanNameAllCaps (Some (JStr r))"
    and "cleanNameAllCaps (Some (JStr (h' @ 32 # r))) = cleanNameAllCaps (Some (JStr r))"
    by blast+
qed

lemma cleanNameAllCaps_no_nameUnit:
  "\<forall>c \<in> set p. \<not> nameUnit c \<Longrightarrow> cleanNameAllCaps (Some (JStr p)) = JNull"
  using cleanNameAllCaps_no_nameChar [of p] by (simp add: nameUnit_eq)

text \<open>
  C9, amended. A value that is not a string gives \<open>null\<close>. For a string \<open>s\<close>: every
  honorific token (a maximal run of ASCII letters, digits and underscores that reads
  \<open>MR\<close>, \<open>MS\<close>, \<open>MRS\<close>, \<open>MISS\<close>, \<open>DR\<close> or \<open>PROF\<close> in any letter case) is deleted
  wherever it stands, with the period that directly follows it; the words of what is
  left (the maximal runs of ASCII letters, code units U+00C0 .. U+00FF, apostrophes and
  hyphens) are joined by single spaces and upper-cased, which on ASCII text is the
  ASCII upper-casing; no word at all gives \<open>null\<close>. Hence the result is \<open>null\<close> or a
  non-empty string over \<open>A-Z\<close>, U+00C0 .. U+00DE, U+00F7, U+0178, space, apostrophe and
  hyphen that neither starts nor ends with a space and has no two spaces in a row; a
  leading honorific followed by a period or a space is dropped with it;
  \<open>"MR. JOHN A. SMITH"\<close> gives \<open>"JOHN A SMITH"\<close>, \<open>"JOHN MR SMITH"\<close> and
  \<open>"JOHN SMITH MR"\<close> give \<open>"JOHN SMITH"\<close>, \<open>"SMITH, DR. JOHN"\<close> gives \<open>"SMITH JOHN"\<close>;
  and a string without any ASCII letter, code unit in U+00C0 .. U+00FF, apostrophe or
  hyphen gives \<open>null\<close>.
\<close>

theorem cleanNameAllCaps_spec:
  "(cleanNameAllCaps name = JNull
    \<or> (\<exists>r. cleanNameAllCaps name = JStr r \<and> r \<noteq> [] \<and> (\<forall>c \<in> set r. upperNameChar c)
           \<and> hd r \<noteq> 32 \<and> last r \<noteq> 32 \<and> noDoubleSpace r))
   \<and> ((\<forall>s. name \<noteq> Some (JStr s)) \<longrightarrow> cleanNameAllCaps name = JNull)
   \<and> cleanNameAllCaps (Some (JStr s)) =
       (let ws = nameWords (dropHonorificTokens s)
        in if ws = [] then JNull else JStr (toUpperCaseName (joinWords ws)))
   \<and> ((\<forall>c \<in> set w. c < 128) \<longrightarrow> toUpperCaseName w = map upperAscii w)
   \<and> (map upperAscii h' \<in> honorificWords \<longrightarrow>
        cleanNameAllCaps (Some (JStr (h' @ 46 # rest))) = cleanNameAllCaps (Some (JStr rest))
        \<and> cleanNameAllCaps (Some (JStr (h' @ 32 # rest))) = cleanNameAllCaps (Some (JStr rest)))
   \<and> cleanNameAllCaps (Some (JStr (js ''MR. JOHN A. SMITH''))) = JStr (js ''JOHN A SMITH'')
   \<and> cleanNameAllCaps (Some (JStr (js ''JOHN MR SMITH''))) = JStr (js ''JOHN SMITH'')
   \<and> cleanNameAllCaps (Some (JStr (js ''SMITH, DR. JOHN''))) = JStr (js ''SMITH JOHN'')
   \<and> cleanNameAllCaps (Some (JStr (js ''JOHN SMITH MR''))) = JStr (js ''JOHN SMITH'')
   \<and> ((\<forall>c \<in> set p. \<not> nameUnit c) \<longrightarrow> cleanNameAllCaps (Some (JStr p)) = JNull)"
proof (intro conjI impI)
  show "cleanNameAllCaps name = JNull
    \<or> (\<exists>r. cleanNameAllCaps name = JStr r \<and> r \<noteq> [] \<and> (\<forall>c \<in> set r. upperNameChar c)
           \<and> hd r \<noteq> 32 \<and> last r \<noteq> 32 \<and> noDoubleSpace r)"
    by (rule cleanNameAllCaps_shape)
next
  assume "\<forall>s. name \<noteq> Some (JStr s)"
  then show "cleanNameAllCaps name = JNull"
    by (auto simp: cleanNameAllCaps_def split: option.splits json.splits)
next
  show "cleanNameAllCaps (Some (JStr s)) =
       (let ws = nameWords (dropHonorificTokens s)
        in if ws = [] then JNull else JStr (toUpperCaseName (joinWords ws)))"
    by (rule cleanNameAllCaps_words)
next
  assume "\<forall>c \<in> set w. c < 128"
  then show "toUpperCaseName w = map upperAscii w"
    by (rule toUpperCaseName_ascii)
next
  assume "map upperAscii h' \<in> honorificWords"
  then show "cleanNameAllCaps (Some (JStr (h' @ 46 # rest))) = cleanNameAllCaps (Some (JStr rest))"
    and "cleanNameAllCaps (Some (JStr (h' @ 32 # rest))) = cleanNameAllCaps (Some (JStr rest))"
    by (rule cleanNameAllCaps_leading_token)+
next
  show "cleanNameAllCaps (Some (JStr (js ''MR. JOHN A. SMITH''))) = JStr (js ''JOHN A SMITH'')"
    by (simp add: name_eval_defs)
next
  show "cleanNameAllCaps (Some (JStr (js ''JOHN MR SMITH''))) = JStr (js ''JOHN SMITH'')"
    by (simp add: name_eval_defs)
next
  show "cleanNameAllCaps (Some (JStr (js ''SMITH, DR. JOHN''))) = JStr (js ''SMITH JOHN'')"
    by (simp add: name_eval_defs)
next
  show "cleanNameAllCaps (Some (JStr (js ''JOHN SMITH MR''))) = JStr (js ''JOHN SMITH'')"
    by (simp add: name_eval_defs)
next
  assume "\<forall>c \<in> set p. \<not> nameUnit c"
  then show "cleanNameAllCaps (Some (JStr p)) = JNull"
    by (rule cleanNameAllCaps_no_nameUnit)
qed

theorem cleanNameAllCaps_spec_witness:
  "cleanNameAllCaps (Some (JNum 7)) = JNull
   \<and> cleanNameAllCaps (Some (JStr (js ''jane PROF. van-SMITH mr''))) = JStr (js ''JANE VAN-SMITH'')
   \<and> cleanNameAllCaps (Some (JStr (js ''Dr. GREGORY HOUSE''))) =
       cleanNameAllCaps (Some (JStr (js '' GREGORY HOUSE'')))
   \<and> cleanNameAllCaps (Some (JStr (js ''mrs JANE DOE''))) =
       cleanNameAllCaps (Some (JStr (js ''JANE DOE'')))
   \<and> cleanNameAllCaps (Some (JStr (js ''... !? 42 ...''))) = JNull"
proof -
  note spec = cleanNameAllCaps_spec [of "Some (JNum 7)" "js ''jane PROF. van-SMITH mr''"
      "js ''jane van-SMITH''" "js ''Dr''" "js '' GREGORY HOUSE''" "js ''... !? 42 ...''"]
  note spec2 = cleanNameAllCaps_spec [of name0 s0 w0 "js ''mrs''" "js ''JANE DOE''" p0]
  have n: "\<forall>s. Some (JNum 7) \<noteq> Some (JStr s)" by simp
  have ws: "nameWords (dropHonorificTokens (js ''jane PROF. van-SMITH mr''))
            = [js ''jane'', js ''van-SMITH'']"
    by (simp add: js_def tokenChar_def upperAscii_def honorificWords_def afterToken_def
        nameUnit_def)
  have jw: "joinWords [js ''jane'', js ''van-SMITH''] = js ''jane van-SMITH''"
    by (simp add: js_def)
  have a: "\<forall>c \<in> set (js ''jane van-SMITH''). c < 128"
    by (simp add: js_def)
  have u: "map upperAscii (js ''jane van-SMITH'') = js ''JANE VAN-SMITH''"
    by (simp add: js_def upperAscii_def)
  have d: "map upperAscii (js ''Dr'') \<in> honorificWords"
    by (simp add: honorificWords_def js_def upperAscii_def)
  have m: "map upperAscii (js ''mrs'') \<in> honorificWords"
    by (simp add: honorificWords_def js_def upperAscii_def)
  have p: "\<forall>c \<in> set (js ''... !? 42 ...''). \<not> nameUnit c"
    by (simp add: js_def nameUnit_def)
  have e1: "js ''Dr'' @ 46 # js '' GREGORY HOUSE'' = js ''Dr. GREGORY HOUSE''"
    "js ''mrs'' @ 32 # js ''JANE DOE'' = js ''mrs JANE DOE''"
    by (simp_all add: js_def)
  from spec n have c1: "cleanNameAllCaps (Some (JNum 7)) = JNull" by blast
  from spec a have "toUpperCaseName (js ''jane van-SMITH'') = map upperAscii (js ''jane van-SMITH'')"
    by blast
  moreover from spec have "cleanNameAllCaps (Some (JStr (js ''jane PROF. van-SMITH mr''))) =
       (let ws = nameWords (dropHonorificTokens (js ''jane PROF. van-SMITH mr''))
        in if ws = [] then JNull else JStr (toUpperCaseName (joinWords ws)))"
    by blast
  ultimately have c2: "cleanNameAllCaps (Some (JStr (js ''jane PROF. van-SMITH mr'')))
                       = JStr (js ''JANE VAN-SMITH'')"
    unfolding ws Let_def jw u by simp
  from spec d have c3: "cleanNameAllCaps (Some (JStr (js ''Dr. GREGORY HOUSE''))) =
       cleanNameAllCaps (Some (JStr (js '' GREGORY HOUSE'')))"
    unfolding e1 by blast
  from spec2 m have c4: "cleanNameAllCaps (Some (JStr (js ''mrs JANE DOE''))) =
       cleanNameAllCaps (Some (JStr (js ''JANE DOE'')))"
    unfolding e1 by blast
  from spec p have c5: "cleanNameAllCaps (Some (JStr (js ''... !? 42 ...''))) = JNull"
    by blast
  from c1 c2 c3 c4 c5 show ?thesis by blast
qed

end
